theory Spec2Isabelle
  imports Main "HOL-Library.Word"
begin

unbundle bit_operations_syntax

section \<open>Token kinds, delimiters and the persistent scanner state\<close>

text \<open>The external tokens of \<^verbatim>\<open>enum TokenType\<close>, in the order of the source.\<close>

datatype TokenType =
    NEWLINE | INDENT | DEDENT | STRING_START | STRING_CONTENT | ESCAPE_INTERPOLATION
  | STRING_END | COMMENT | CLOSE_PAREN | CLOSE_BRACKET | CLOSE_BRACE | EXCEPT
  | SUBPROCESS_START | LOGICAL_AND | LOGICAL_OR | BACKGROUND_AMP | KEYWORD_AND | KEYWORD_OR
  | SUBPROCESS_MACRO_START | BLOCK_MACRO_START | PATH_PREFIX

text \<open>
  Code points are the \<^verbatim>\<open>int32_t\<close> values of \<^verbatim>\<open>lexer->lookahead\<close>; the scanner only
  compares them, so they are modelled as \<^typ>\<open>int\<close>. A character literal \<^verbatim>\<open>'x'\<close> of the
  source is written \<open>ch CHR ''x''\<close>.
\<close>

abbreviation ch :: "char \<Rightarrow> int" where
  "ch \<equiv> of_char"

abbreviation c_newline :: int where "c_newline \<equiv> ch (CHR 0x0A)"
abbreviation c_tab :: int where "c_tab \<equiv> ch (CHR 0x09)"
abbreviation c_cr :: int where "c_cr \<equiv> ch (CHR 0x0D)"
abbreviation c_ff :: int where "c_ff \<equiv> ch (CHR 0x0C)"
abbreviation c_space :: int where "c_space \<equiv> ch (CHR 0x20)"
abbreviation c_backslash :: int where "c_backslash \<equiv> ch (CHR 0x5C)"
abbreviation c_squote :: int where "c_squote \<equiv> ch (CHR 0x27)"
abbreviation c_dquote :: int where "c_dquote \<equiv> ch (CHR 0x22)"
abbreviation c_backquote :: int where "c_backquote \<equiv> ch (CHR 0x60)"

text \<open>The bits of \<^verbatim>\<open>enum Flags\<close>; a \<^verbatim>\<open>Delimiter\<close> is one \<^verbatim>\<open>char\<close> of flags.\<close>

definition SingleQuote :: "8 word" where "SingleQuote = 1"
definition DoubleQuote :: "8 word" where "DoubleQuote = 2"
definition BackQuote :: "8 word" where "BackQuote = 4"
definition Raw :: "8 word" where "Raw = 8"
definition Format :: "8 word" where "Format = 16"
definition Triple :: "8 word" where "Triple = 32"
definition Bytes :: "8 word" where "Bytes = 64"

lemmas Flags_defs =
  SingleQuote_def DoubleQuote_def BackQuote_def Raw_def Format_def Triple_def Bytes_def

record Delimiter =
  flags :: "8 word"

definition new_delimiter :: Delimiter where
  "new_delimiter = \<lparr>flags = 0\<rparr>"

definition is_format :: "Delimiter \<Rightarrow> bool" where
  "is_format d = (flags d AND Format \<noteq> 0)"

definition is_raw :: "Delimiter \<Rightarrow> bool" where
  "is_raw d = (flags d AND Raw \<noteq> 0)"

definition is_triple :: "Delimiter \<Rightarrow> bool" where
  "is_triple d = (flags d AND Triple \<noteq> 0)"

definition is_bytes :: "Delimiter \<Rightarrow> bool" where
  "is_bytes d = (flags d AND Bytes \<noteq> 0)"

definition end_character :: "Delimiter \<Rightarrow> int" where
  "end_character d =
     (if flags d AND SingleQuote \<noteq> 0 then c_squote
      else if flags d AND DoubleQuote \<noteq> 0 then c_dquote
      else if flags d AND BackQuote \<noteq> 0 then c_backquote
      else 0)"

definition set_format :: "Delimiter \<Rightarrow> Delimiter" where
  "set_format d = d\<lparr>flags := flags d OR Format\<rparr>"

definition set_raw :: "Delimiter \<Rightarrow> Delimiter" where
  "set_raw d = d\<lparr>flags := flags d OR Raw\<rparr>"

definition set_triple :: "Delimiter \<Rightarrow> Delimiter" where
  "set_triple d = d\<lparr>flags := flags d OR Triple\<rparr>"

definition set_bytes :: "Delimiter \<Rightarrow> Delimiter" where
  "set_bytes d = d\<lparr>flags := flags d OR Bytes\<rparr>"

text \<open>
  \<^verbatim>\<open>set_end_character\<close> asserts in its default case; every call of the scanner passes
  a single or a double quote it has just seen, so the default leaves the flags alone.
\<close>

definition set_end_character :: "Delimiter \<Rightarrow> int \<Rightarrow> Delimiter" where
  "set_end_character d c =
     (if c = c_squote then d\<lparr>flags := flags d OR SingleQuote\<rparr>
      else if c = c_dquote then d\<lparr>flags := flags d OR DoubleQuote\<rparr>
      else if c = c_backquote then d\<lparr>flags := flags d OR BackQuote\<rparr>
      else d)"

text \<open>
  \<^verbatim>\<open>Scanner\<close>: the indent stack is an \<^verbatim>\<open>Array(uint16_t)\<close>, the delimiter stack an
  \<^verbatim>\<open>Array(Delimiter)\<close>. Both are lists whose last element is the top of the stack
  (\<^verbatim>\<open>array_back\<close> is \<^const>\<open>last\<close>, \<^verbatim>\<open>array_push\<close> appends, \<^verbatim>\<open>array_pop\<close> is
  \<^const>\<open>butlast\<close>).
\<close>

record Scanner =
  indents :: "16 word list"
  delimiters :: "Delimiter list"
  inside_f_string :: bool

section \<open>The host lexer\<close>

text \<open>
  Modelled from the spec: the \<^verbatim>\<open>TSLexer\<close> of the host (\<^verbatim>\<open>tree_sitter/parser.h\<close>, not part
  of the repository). The spec gives it \<^verbatim>\<open>lookahead\<close> (0 at end of input),
  \<^verbatim>\<open>advance(skip)\<close>, \<^verbatim>\<open>mark_end\<close>, \<^verbatim>\<open>eof\<close> and \<^verbatim>\<open>result_symbol\<close>. The model keeps
  the code points not yet read, the number of code points read so far, the start of the
  token (moved by an advance that skips), and the marked end; a token that is emitted
  without any mark ends at the current position. Advancing at the end of input does
  nothing.
\<close>

record TSLexer =
  remaining :: "int list"
  position :: nat
  token_start :: nat
  token_end :: "nat option"
  result_symbol :: TokenType

definition lookahead :: "TSLexer \<Rightarrow> int" where
  "lookahead lx = (case remaining lx of [] \<Rightarrow> 0 | c # _ \<Rightarrow> c)"

definition eof :: "TSLexer \<Rightarrow> bool" where
  "eof lx = (remaining lx = [])"

definition lexer_advance :: "bool \<Rightarrow> TSLexer \<Rightarrow> TSLexer" where
  "lexer_advance skp lx =
     (case remaining lx of
        [] \<Rightarrow> lx
      | c # cs \<Rightarrow>
          lx\<lparr>remaining := cs, position := position lx + 1,
             token_start := (if skp then position lx + 1 else token_start lx)\<rparr>)"

definition advance :: "TSLexer \<Rightarrow> TSLexer" where
  "advance lx = lexer_advance False lx"

definition skip :: "TSLexer \<Rightarrow> TSLexer" where
  "skip lx = lexer_advance True lx"

definition mark_end :: "TSLexer \<Rightarrow> TSLexer" where
  "mark_end lx = lx\<lparr>token_end := Some (position lx)\<rparr>"

definition start_lexer :: "int list \<Rightarrow> nat \<Rightarrow> TSLexer" where
  "start_lexer cs p =
     \<lparr>remaining = cs, position = p, token_start = p, token_end = None,
      result_symbol = NEWLINE\<rparr>"

definition marked_end :: "TSLexer \<Rightarrow> nat" where
  "marked_end lx = (case token_end lx of None \<Rightarrow> position lx | Some e \<Rightarrow> e)"

section \<open>Character predicates and the static tables\<close>

definition is_identifier_start :: "int \<Rightarrow> bool" where
  "is_identifier_start c =
     ((c \<ge> ch CHR ''a'' \<and> c \<le> ch CHR ''z'') \<or> (c \<ge> ch CHR ''A'' \<and> c \<le> ch CHR ''Z'')
      \<or> c = ch CHR ''_'')"

definition is_identifier_char :: "int \<Rightarrow> bool" where
  "is_identifier_char c = (is_identifier_start c \<or> (c \<ge> ch CHR ''0'' \<and> c \<le> ch CHR ''9''))"

definition is_digit :: "int \<Rightarrow> bool" where
  "is_digit c = (c \<ge> ch CHR ''0'' \<and> c \<le> ch CHR ''9'')"

definition is_whitespace :: "int \<Rightarrow> bool" where
  "is_whitespace c = (c = c_space \<or> c = c_tab)"

text \<open>
  \<^verbatim>\<open>isalnum\<close> of the C library, in the C locale. The C library defines it on the values
  of an \<^verbatim>\<open>unsigned char\<close> and on \<^verbatim>\<open>EOF\<close>; the source passes it the lookahead code point,
  and above 255 the behaviour of the call is undefined. The definition gives \<open>False\<close> there,
  and no property below rests on its value for such an argument.
\<close>

definition isalnum :: "int \<Rightarrow> bool" where
  "isalnum c =
     ((c \<ge> ch CHR ''a'' \<and> c \<le> ch CHR ''z'') \<or> (c \<ge> ch CHR ''A'' \<and> c \<le> ch CHR ''Z'')
      \<or> (c \<ge> ch CHR ''0'' \<and> c \<le> ch CHR ''9''))"

definition python_keywords :: "string list" where
  "python_keywords =
     [''def'', ''class'', ''if'', ''elif'', ''else'', ''for'', ''while'', ''try'', ''except'',
      ''finally'', ''with'', ''import'', ''from'', ''return'', ''yield'', ''raise'', ''pass'',
      ''break'', ''continue'', ''del'', ''global'', ''nonlocal'', ''assert'', ''lambda'',
      ''async'', ''await'', ''match'', ''case'', ''type'',
      ''xontrib'']"

text \<open>
  The identifier buffer \<^verbatim>\<open>first_ident\<close> is the list of the code points read into it.
  \<^verbatim>\<open>strncmp\<close> over equal lengths is equality of the two character sequences.
\<close>

definition is_python_keyword :: "int list \<Rightarrow> bool" where
  "is_python_keyword ident =
     list_ex (\<lambda>kw. length kw = length ident \<and> map ch kw = ident) python_keywords"

definition shell_commands :: "string list" where
  "shell_commands =
     [''cd'', ''ls'', ''pwd'', ''echo'', ''cat'', ''cp'', ''mv'', ''rm'', ''mkdir'', ''rmdir'',
      ''touch'', ''chmod'', ''chown'', ''ln'', ''head'', ''tail'', ''less'', ''more'',
      ''grep'', ''find'', ''sed'', ''awk'', ''sort'', ''uniq'', ''wc'', ''cut'', ''tr'', ''xargs'',
      ''make'', ''cmake'', ''ninja'', ''gradle'', ''mvn'', ''ant'', ''meson'',
      ''npm'', ''yarn'', ''pnpm'', ''pip'', ''pip3'', ''cargo'', ''go'', ''gem'', ''composer'',
      ''git'', ''svn'', ''hg'', ''bzr'',
      ''docker'', ''podman'', ''kubectl'', ''helm'', ''docker-compose'',
      ''curl'', ''wget'', ''ssh'', ''scp'', ''rsync'', ''ping'', ''nc'', ''netstat'',
      ''tar'', ''zip'', ''unzip'', ''gzip'', ''gunzip'', ''xz'', ''bzip2'',
      ''sudo'', ''su'', ''ps'', ''top'', ''htop'', ''kill'', ''killall'', ''df'', ''du'', ''mount'',
      ''gcc'', ''g++'', ''clang'', ''clang++'', ''rustc'', ''javac'', ''python'', ''python3'',
      ''vi'', ''vim'', ''nvim'', ''nano'', ''emacs'', ''code'',
      ''xpip'', ''completer'', ''history'', ''replay'', ''trace'', ''timeit'']"

definition is_shell_command :: "int list \<Rightarrow> bool" where
  "is_shell_command ident =
     list_ex (\<lambda>cmd. length cmd = length ident \<and> map ch cmd = ident) shell_commands"

section \<open>Control flow of a function with early returns\<close>

text \<open>
  A block of the source either returns from the function (\<open>Return\<close>) or falls through to
  the next statement with the values it leaves behind (\<open>Next\<close>).
\<close>

datatype ('r, 'k) flow = Return 'r | Next 'k

fun then_flow :: "('r, 'a) flow \<Rightarrow> ('a \<Rightarrow> ('r, 'b) flow) \<Rightarrow> ('r, 'b) flow" where
  "then_flow (Return r) f = Return r"
| "then_flow (Next a) f = f a"

section \<open>Small loops over the lookahead\<close>

lemma lookahead_nonzero_remaining: "lookahead lx \<noteq> 0 \<Longrightarrow> remaining lx \<noteq> []"
  by (auto simp: lookahead_def)

lemma remaining_lexer_advance_less:
  "remaining lx \<noteq> [] \<Longrightarrow> length (remaining (lexer_advance b lx)) < length (remaining lx)"
  by (cases "remaining lx") (auto simp: lexer_advance_def)

lemma remaining_lexer_advance_le:
  "length (remaining (lexer_advance b lx)) \<le> length (remaining lx)"
  by (cases "remaining lx") (auto simp: lexer_advance_def)

lemma is_whitespace_nonzero: "is_whitespace c \<Longrightarrow> c \<noteq> 0"
  by (auto simp: is_whitespace_def)

lemma is_identifier_char_nonzero: "is_identifier_char c \<Longrightarrow> c \<noteq> 0"
  by (auto simp: is_identifier_char_def is_identifier_start_def)

text \<open>\<^verbatim>\<open>while (is_whitespace(lexer->lookahead)) advance(lexer);\<close>\<close>

function skip_whitespace :: "TSLexer \<Rightarrow> TSLexer" where
  "skip_whitespace lx =
     (if is_whitespace (lookahead lx) then skip_whitespace (advance lx) else lx)"
  by pat_completeness auto
termination
  by (relation "measure (\<lambda>lx. length (remaining lx))")
     (auto simp: advance_def dest!: is_whitespace_nonzero lookahead_nonzero_remaining
           intro: remaining_lexer_advance_less)

text \<open>\<^verbatim>\<open>while (is_whitespace(lexer->lookahead)) { advance(lexer); pos++; }\<close>\<close>

function skip_whitespace_count :: "TSLexer \<Rightarrow> nat \<Rightarrow> TSLexer \<times> nat" where
  "skip_whitespace_count lx pos =
     (if is_whitespace (lookahead lx) then skip_whitespace_count (advance lx) (pos + 1)
      else (lx, pos))"
  by pat_completeness auto
termination
  by (relation "measure (\<lambda>(lx, pos). length (remaining lx))")
     (auto simp: advance_def dest!: is_whitespace_nonzero lookahead_nonzero_remaining
           intro: remaining_lexer_advance_less)

text \<open>\<^verbatim>\<open>while (is_identifier_char(lexer->lookahead)) advance(lexer);\<close>\<close>

function skip_identifier :: "TSLexer \<Rightarrow> TSLexer" where
  "skip_identifier lx =
     (if is_identifier_char (lookahead lx) then skip_identifier (advance lx) else lx)"
  by pat_completeness auto
termination
  by (relation "measure (\<lambda>lx. length (remaining lx))")
     (auto simp: advance_def dest!: is_identifier_char_nonzero lookahead_nonzero_remaining
           intro: remaining_lexer_advance_less)

text \<open>\<^verbatim>\<open>while (is_identifier_char(lexer->lookahead)) { advance(lexer); pos++; }\<close>\<close>

function skip_identifier_count :: "TSLexer \<Rightarrow> nat \<Rightarrow> TSLexer \<times> nat" where
  "skip_identifier_count lx pos =
     (if is_identifier_char (lookahead lx) then skip_identifier_count (advance lx) (pos + 1)
      else (lx, pos))"
  by pat_completeness auto
termination
  by (relation "measure (\<lambda>(lx, pos). length (remaining lx))")
     (auto simp: advance_def dest!: is_identifier_char_nonzero lookahead_nonzero_remaining
           intro: remaining_lexer_advance_less)

text \<open>
  \<^verbatim>\<open>while (is_identifier_char(lexer->lookahead) && len < 63) { buf[len++] = (char)lexer->lookahead; advance(lexer); }\<close>
  The buffer is the list of the characters stored so far; identifier characters are
  ASCII, so the cast to \<^verbatim>\<open>char\<close> keeps them.
\<close>

function read_identifier :: "TSLexer \<Rightarrow> int list \<Rightarrow> TSLexer \<times> int list" where
  "read_identifier lx buf =
     (if is_identifier_char (lookahead lx) \<and> length buf < 63
      then read_identifier (advance lx) (buf @ [lookahead lx])
      else (lx, buf))"
  by pat_completeness auto
termination
  by (relation "measure (\<lambda>(lx, buf). length (remaining lx))")
     (auto simp: advance_def dest!: is_identifier_char_nonzero lookahead_nonzero_remaining
           intro: remaining_lexer_advance_less)

text \<open>\<^verbatim>\<open>while (lexer->lookahead == ',') advance(lexer);\<close>\<close>

function skip_commas :: "TSLexer \<Rightarrow> TSLexer" where
  "skip_commas lx = (if lookahead lx = ch CHR '','' then skip_commas (advance lx) else lx)"
  by pat_completeness auto
termination
  by (relation "measure (\<lambda>lx. length (remaining lx))")
     (auto simp: advance_def lexer_advance_def lookahead_def split: list.splits)

declare skip_whitespace.simps [simp del] skip_whitespace_count.simps [simp del]
  skip_identifier.simps [simp del] skip_identifier_count.simps [simp del]
  read_identifier.simps [simp del] skip_commas.simps [simp del]


lemma remaining_advance_less:
  "lookahead lx \<noteq> 0 \<Longrightarrow> length (remaining (advance lx)) < length (remaining lx)"
  by (simp add: advance_def remaining_lexer_advance_less lookahead_nonzero_remaining)

lemma remaining_advance_le: "length (remaining (advance lx)) \<le> length (remaining lx)"
  by (simp add: advance_def remaining_lexer_advance_le)

lemma remaining_skip_whitespace_le:
  "length (remaining (skip_whitespace lx)) \<le> length (remaining lx)"
proof (induction lx rule: skip_whitespace.induct)
  case (1 lx)
  show ?case
  proof (cases "is_whitespace (lookahead lx)")
    case True
    with 1 have "length (remaining (skip_whitespace (advance lx))) \<le> length (remaining (advance lx))"
      by simp
    also have "\<dots> \<le> length (remaining lx)" by (rule remaining_advance_le)
    finally show ?thesis using True by (subst skip_whitespace.simps) simp
  next
    case False
    then show ?thesis by (subst skip_whitespace.simps) simp
  qed
qed

lemma remaining_skip_identifier_le:
  "length (remaining (skip_identifier lx)) \<le> length (remaining lx)"
proof (induction lx rule: skip_identifier.induct)
  case (1 lx)
  show ?case
  proof (cases "is_identifier_char (lookahead lx)")
    case True
    with 1 have "length (remaining (skip_identifier (advance lx))) \<le> length (remaining (advance lx))"
      by simp
    also have "\<dots> \<le> length (remaining lx)" by (rule remaining_advance_le)
    finally show ?thesis using True by (subst skip_identifier.simps) simp
  next
    case False
    then show ?thesis by (subst skip_identifier.simps) simp
  qed
qed

lemma remaining_skip_identifier_less:
  assumes "is_identifier_start (lookahead lx)"
  shows "length (remaining (skip_identifier lx)) < length (remaining lx)"
proof -
  from assms have c: "is_identifier_char (lookahead lx)"
    by (simp add: is_identifier_char_def)
  then have "lookahead lx \<noteq> 0" by (rule is_identifier_char_nonzero)
  then have "length (remaining (advance lx)) < length (remaining lx)"
    by (rule remaining_advance_less)
  moreover have "length (remaining (skip_identifier (advance lx))) \<le> length (remaining (advance lx))"
    by (rule remaining_skip_identifier_le)
  ultimately show ?thesis using c by (subst skip_identifier.simps) simp
qed

section \<open>The subprocess detector\<close>

datatype DetectResult =
    DETECT_NONE | DETECT_SUBPROCESS | DETECT_SUBPROCESS_MACRO | DETECT_STRING
  | DETECT_BLOCK_MACRO | DETECT_PATH_PREFIX

text \<open>
  What \<^verbatim>\<open>detect_subprocess_line\<close> leaves behind: its return value, the lexer as it has
  advanced it, and the two out parameters.
\<close>

record Detected =
  det_result :: DetectResult
  det_lexer :: TSLexer
  subprocess_macro_end :: nat
  string_delimiter :: Delimiter

subsection \<open>Opening probes\<close>

text \<open>
  Each probe is one \<^verbatim>\<open>if\<close> statement of the source on the lexer and the counter
  \<^verbatim>\<open>pos\<close>: it returns from the detector or falls through to the next one.
\<close>

definition probe_slash :: "TSLexer \<times> nat \<Rightarrow> (DetectResult \<times> TSLexer, TSLexer \<times> nat) flow" where
  "probe_slash = (\<lambda>(lx, pos).
     if lookahead lx = ch CHR ''/'' then Return (DETECT_SUBPROCESS, lx) else Next (lx, pos))"

definition probe_dot :: "TSLexer \<times> nat \<Rightarrow> (DetectResult \<times> TSLexer, TSLexer \<times> nat) flow" where
  "probe_dot = (\<lambda>(lx, pos).
     if lookahead lx = ch CHR ''.'' then
       (if lookahead (advance lx) = ch CHR ''/'' then Return (DETECT_SUBPROCESS, advance lx)
        else Next (advance lx, pos + 1))
     else Next (lx, pos))"

definition probe_tilde :: "TSLexer \<times> nat \<Rightarrow> (DetectResult \<times> TSLexer, TSLexer \<times> nat) flow" where
  "probe_tilde = (\<lambda>(lx, pos).
     if lookahead lx = ch CHR ''~'' then
       (if lookahead (advance lx) = ch CHR ''/'' then Return (DETECT_SUBPROCESS, advance lx)
        else Next (advance lx, pos + 1))
     else Next (lx, pos))"

definition probe_dollar :: "TSLexer \<times> nat \<Rightarrow> (DetectResult \<times> TSLexer, TSLexer \<times> nat) flow" where
  "probe_dollar = (\<lambda>(lx, pos).
     if lookahead lx = ch CHR ''$'' then
       (if lookahead (advance lx) = ch CHR ''('' \<or> lookahead (advance lx) = ch CHR ''[''
        then Return (DETECT_NONE, advance lx)
        else Next (advance lx, pos + 1))
     else Next (lx, pos))"

definition probe_bang :: "TSLexer \<times> nat \<Rightarrow> (DetectResult \<times> TSLexer, TSLexer \<times> nat) flow" where
  "probe_bang = (\<lambda>(lx, pos).
     if lookahead lx = ch CHR ''!'' then
       (if lookahead (advance lx) = ch CHR ''('' \<or> lookahead (advance lx) = ch CHR ''[''
        then Return (DETECT_NONE, advance lx)
        else Next (advance lx, pos + 1))
     else Next (lx, pos))"

definition probe_bracket :: "TSLexer \<times> nat \<Rightarrow> (DetectResult \<times> TSLexer, TSLexer \<times> nat) flow" where
  "probe_bracket = (\<lambda>(lx, pos).
     if lookahead lx = ch CHR ''['' then Return (DETECT_NONE, lx) else Next (lx, pos))"

text \<open>The command after \<^verbatim>\<open>@modifier\<close> and its whitespace.\<close>

definition probe_at_command :: "TSLexer \<Rightarrow> DetectResult \<times> TSLexer" where
  "probe_at_command lx3 =
     (if lookahead lx3 = ch CHR ''/'' \<or> lookahead lx3 = ch CHR ''.'' \<or>
         lookahead lx3 = ch CHR ''~'' \<or> lookahead lx3 = ch CHR ''-''
      then (DETECT_SUBPROCESS, lx3)
      else if is_identifier_start (lookahead lx3) then
        (case read_identifier lx3 [] of (lx4, cmd) \<Rightarrow>
           if is_shell_command cmd then (DETECT_SUBPROCESS, lx4) else (DETECT_NONE, lx4))
      else (DETECT_NONE, lx3))"

definition probe_at :: "TSLexer \<times> nat \<Rightarrow> (DetectResult \<times> TSLexer, TSLexer \<times> nat) flow" where
  "probe_at = (\<lambda>(lx, pos).
     if lookahead lx = ch CHR ''@'' then
       (if is_identifier_start (lookahead (advance lx)) then
          (case skip_identifier_count (advance lx) (pos + 1) of (lx2, pos2) \<Rightarrow>
             if lookahead lx2 = ch CHR ''.'' \<or> lookahead lx2 = ch CHR ''(''
             then Return (DETECT_NONE, lx2)
             else if is_whitespace (lookahead lx2) then
               (case skip_whitespace_count lx2 pos2 of (lx3, pos3) \<Rightarrow>
                  Return (probe_at_command lx3))
             else Return (DETECT_NONE, lx2))
        else Return (DETECT_NONE, advance lx))
     else Next (lx, pos))"

definition detect_probes :: "TSLexer \<Rightarrow> (DetectResult \<times> TSLexer, TSLexer \<times> nat) flow" where
  "detect_probes lx =
     then_flow (probe_slash (lx, 0)) (\<lambda>a.
     then_flow (probe_dot a) (\<lambda>a.
     then_flow (probe_tilde a) (\<lambda>a.
     then_flow (probe_dollar a) (\<lambda>a.
     then_flow (probe_bang a) (\<lambda>a.
     then_flow (probe_bracket a) probe_at)))))"

subsection \<open>First-identifier analysis\<close>

definition is_prefix_letter :: "int \<Rightarrow> bool" where
  "is_prefix_letter c =
     (c = ch CHR ''f'' \<or> c = ch CHR ''F'' \<or> c = ch CHR ''r'' \<or> c = ch CHR ''R'' \<or>
      c = ch CHR ''b'' \<or> c = ch CHR ''B'' \<or> c = ch CHR ''u'' \<or> c = ch CHR ''U'')"

text \<open>The body of the loop that fills \<^verbatim>\<open>*string_delimiter\<close> from the prefix letters.\<close>

definition prefix_flag :: "Delimiter \<Rightarrow> int \<Rightarrow> Delimiter" where
  "prefix_flag d c =
     (if c = ch CHR ''f'' \<or> c = ch CHR ''F'' then set_format d
      else if c = ch CHR ''r'' \<or> c = ch CHR ''R'' then set_raw d
      else if c = ch CHR ''b'' \<or> c = ch CHR ''B'' then set_bytes d
      else d)"

definition is_path_prefix_ident :: "int list \<Rightarrow> bool" where
  "is_path_prefix_ident first_ident =
     ((length first_ident = 1 \<and> (first_ident ! 0 = ch CHR ''p'' \<or> first_ident ! 0 = ch CHR ''P''))
      \<or> (length first_ident = 2 \<and> (first_ident ! 0 = ch CHR ''p'' \<or> first_ident ! 0 = ch CHR ''P'')
          \<and> (first_ident ! 1 = ch CHR ''f'' \<or> first_ident ! 1 = ch CHR ''F'' \<or>
              first_ident ! 1 = ch CHR ''r'' \<or> first_ident ! 1 = ch CHR ''R'')))"

definition is_with :: "int list \<Rightarrow> bool" where
  "is_with first_ident = (length first_ident = 4 \<and> take 4 first_ident = map ch ''with'')"

text \<open>\<^verbatim>\<open>lexer->lookahead == '\n' || lexer->lookahead == '\0' || lexer->eof(lexer)\<close>\<close>

definition at_line_end :: "TSLexer \<Rightarrow> bool" where
  "at_line_end lx = (lookahead lx = c_newline \<or> lookahead lx = 0 \<or> eof lx)"

text \<open>String prefix or path prefix directly before a quote.\<close>

definition ident_prefix_check ::
  "TSLexer \<Rightarrow> int list \<Rightarrow> Delimiter \<Rightarrow> (Detected, unit) flow" where
  "ident_prefix_check lx first_ident sd =
     (if length first_ident \<ge> 1 \<and> length first_ident \<le> 3 \<and>
         (lookahead lx = c_dquote \<or> lookahead lx = c_squote) then
        (if list_all is_prefix_letter first_ident then
           Return \<lparr>det_result = DETECT_STRING, det_lexer = lx, subprocess_macro_end = 0,
                   string_delimiter = foldl prefix_flag new_delimiter first_ident\<rparr>
         else if is_path_prefix_ident first_ident then
           Return \<lparr>det_result = DETECT_PATH_PREFIX, det_lexer = lx, subprocess_macro_end = 0,
                   string_delimiter = sd\<rparr>
         else Next ())
      else Next ())"

text \<open>Help expression \<^verbatim>\<open>identifier?\<close> or \<^verbatim>\<open>identifier??\<close>.\<close>

definition ident_help_check :: "TSLexer \<Rightarrow> Delimiter \<Rightarrow> (Detected, TSLexer) flow" where
  "ident_help_check lx sd =
     (if lookahead lx = ch CHR ''?'' then
        (let lx1 = advance lx;
             lx2 = (if lookahead lx1 = ch CHR ''?'' then advance lx1 else lx1);
             lx3 = skip_whitespace lx2
         in if at_line_end lx3 then
              Return \<lparr>det_result = DETECT_NONE, det_lexer = lx3, subprocess_macro_end = 0,
                      string_delimiter = sd\<rparr>
            else Next lx3)
      else Next lx)"

definition ident_keyword_check ::
  "TSLexer \<Rightarrow> int list \<Rightarrow> Delimiter \<Rightarrow> (Detected, unit) flow" where
  "ident_keyword_check lx first_ident sd =
     (if is_python_keyword first_ident \<and>
         \<not> (is_with first_ident \<and> lookahead lx = ch CHR ''!'') then
        Return \<lparr>det_result = DETECT_NONE, det_lexer = lx, subprocess_macro_end = 0,
                string_delimiter = sd\<rparr>
      else Next ())"

text \<open>Subprocess macro \<^verbatim>\<open>identifier!\<close> followed by whitespace.\<close>

definition ident_macro_check ::
  "TSLexer \<Rightarrow> int list \<Rightarrow> nat \<Rightarrow> Delimiter \<Rightarrow> (Detected, TSLexer \<times> nat) flow" where
  "ident_macro_check lx first_ident pos sd =
     (if lookahead lx = ch CHR ''!'' then
        (if is_whitespace (lookahead (advance lx)) then
           (if is_with first_ident then
              Return \<lparr>det_result = DETECT_BLOCK_MACRO, det_lexer = advance lx,
                      subprocess_macro_end = 0, string_delimiter = sd\<rparr>
            else
              (case skip_whitespace_count (advance lx) (pos + 1) of (lx2, pos2) \<Rightarrow>
                 Return \<lparr>det_result = DETECT_SUBPROCESS_MACRO, det_lexer = lx2,
                         subprocess_macro_end = pos2, string_delimiter = sd\<rparr>))
         else Next (advance lx, pos + 1))
      else Next (lx, pos))"

definition detect_first_identifier ::
  "TSLexer \<Rightarrow> nat \<Rightarrow> Delimiter \<Rightarrow> (Detected, TSLexer \<times> int list \<times> nat) flow" where
  "detect_first_identifier lx0 pos0 sd =
     (let (lx, pos) = (if lookahead lx0 = ch CHR ''$'' then (advance lx0, pos0 + 1)
                       else (lx0, pos0))
      in if is_identifier_start (lookahead lx) then
           (case read_identifier lx [] of (lx1, first_ident) \<Rightarrow>
              then_flow (ident_prefix_check lx1 first_ident sd) (\<lambda>_.
              then_flow (ident_help_check lx1 sd) (\<lambda>lx2.
              then_flow (ident_keyword_check lx2 first_ident sd) (\<lambda>_.
              then_flow (ident_macro_check lx2 first_ident (pos + length first_ident) sd)
                (\<lambda>(lx3, pos3). Next (lx3, first_ident, pos3))))))
         else Next (lx, [], pos))"

subsection \<open>Comma-only lines\<close>

definition detect_comma_line :: "TSLexer \<Rightarrow> int list \<Rightarrow> (DetectResult \<times> TSLexer, TSLexer) flow" where
  "detect_comma_line lx first_ident =
     (if length first_ident = 0 \<and> lookahead lx = ch CHR '','' then
        (let lx1 = skip_whitespace (skip_commas lx)
         in if at_line_end lx1 then Return (DETECT_SUBPROCESS, lx1) else Next lx1)
      else Next lx)"


subsection \<open>Rest-of-line scan\<close>

text \<open>
  The local variables of the scanning loop. \<^verbatim>\<open>python_eval_depth\<close> is a C \<^verbatim>\<open>int\<close> that
  counts parentheses of one line and is modelled as \<^typ>\<open>int\<close>.
\<close>

record line_state =
  has_flag :: bool
  has_pipe :: bool
  has_redirect :: bool
  has_assignment :: bool
  has_call_parens :: bool
  has_subscript :: bool
  has_attribute :: bool
  has_comparison :: bool
  has_env_arg :: bool
  has_macro_call :: bool
  has_subprocess_macro :: bool
  in_string :: bool
  string_char :: int
  prev_was_ident_no_space :: bool
  prev_was_space :: bool
  seen_shell_signal :: bool
  prev_was_flag :: bool
  python_eval_depth :: int

definition initial_line_state :: "int list \<Rightarrow> line_state" where
  "initial_line_state first_ident =
     \<lparr>has_flag = False, has_pipe = False, has_redirect = False, has_assignment = False,
      has_call_parens = False, has_subscript = False, has_attribute = False,
      has_comparison = False, has_env_arg = False, has_macro_call = False,
      has_subprocess_macro = False, in_string = False, string_char = 0,
      prev_was_ident_no_space = (length first_ident > 0), prev_was_space = False,
      seen_shell_signal = (length first_ident > 0 \<and> is_shell_command first_ident),
      prev_was_flag = False, python_eval_depth = 0\<rparr>"

definition shell_flag :: "line_state \<Rightarrow> line_state" where
  "shell_flag st = st\<lparr>has_flag := True, seen_shell_signal := True, prev_was_flag := True\<rparr>"

definition shell_pipe :: "line_state \<Rightarrow> line_state" where
  "shell_pipe st = st\<lparr>has_pipe := True, seen_shell_signal := True\<rparr>"

definition shell_env_arg :: "line_state \<Rightarrow> line_state" where
  "shell_env_arg st = st\<lparr>has_env_arg := True, seen_shell_signal := True\<rparr>"

definition no_ident :: "line_state \<Rightarrow> line_state" where
  "no_ident st = st\<lparr>prev_was_ident_no_space := False\<rparr>"

text \<open>Inside a quoted string of the line.\<close>

definition step_in_string :: "line_state \<Rightarrow> TSLexer \<Rightarrow> line_state \<times> TSLexer" where
  "step_in_string st lx =
     (if lookahead lx = c_backslash then
        (st, if lookahead (advance lx) \<noteq> 0 then advance (advance lx) else advance lx)
      else ((if lookahead lx = string_char st then st\<lparr>in_string := False\<rparr> else st),
            advance lx))"

text \<open>\<^verbatim>\<open>-x\<close> and \<^verbatim>\<open>--flag\<close>.\<close>

definition step_minus :: "line_state \<Rightarrow> TSLexer \<Rightarrow> line_state \<times> TSLexer" where
  "step_minus st lx =
     (let lx1 = advance lx in
      if lookahead lx1 = ch CHR ''-'' then
        (no_ident (if is_identifier_start (lookahead (advance lx1)) then shell_flag st else st),
         advance lx1)
      else
        (no_ident (if is_identifier_start (lookahead lx1) then shell_flag st else st), lx1))"

text \<open>\<^verbatim>\<open>|\<close>, \<^verbatim>\<open>||\<close> and \<^verbatim>\<open>|=\<close>.\<close>

definition step_pipe :: "line_state \<Rightarrow> TSLexer \<Rightarrow> line_state \<times> TSLexer" where
  "step_pipe st lx =
     (let lx1 = advance lx in
      if lookahead lx1 = ch CHR ''|'' then (no_ident (shell_pipe st), advance lx1)
      else if lookahead lx1 \<noteq> ch CHR ''='' then (no_ident (shell_pipe st), lx1)
      else (no_ident st, lx1))"

text \<open>\<^verbatim>\<open>&&\<close>, and \<^verbatim>\<open>&\<close> at the end of the line.\<close>

definition step_amp :: "line_state \<Rightarrow> TSLexer \<Rightarrow> line_state \<times> TSLexer" where
  "step_amp st lx =
     (let lx1 = advance lx in
      if lookahead lx1 = ch CHR ''&'' then (no_ident (shell_pipe st), advance lx1)
      else
        (let lx2 = skip_whitespace lx1 in
         if at_line_end lx2 then (no_ident (shell_pipe st), lx2) else (no_ident st, lx2)))"

definition step_gt :: "line_state \<Rightarrow> TSLexer \<Rightarrow> line_state \<times> TSLexer" where
  "step_gt st lx =
     (let lx1 = advance lx in
      if lookahead lx1 = ch CHR ''='' then (no_ident (st\<lparr>has_comparison := True\<rparr>), lx1)
      else (no_ident (st\<lparr>has_redirect := True, seen_shell_signal := True\<rparr>), lx1))"

definition step_lt :: "line_state \<Rightarrow> TSLexer \<Rightarrow> line_state \<times> TSLexer" where
  "step_lt st lx =
     (let lx1 = advance lx in
      if lookahead lx1 = ch CHR ''='' then (no_ident (st\<lparr>has_comparison := True\<rparr>), lx1)
      else if lookahead lx1 \<noteq> ch CHR ''<'' then
        (no_ident (st\<lparr>has_redirect := True, seen_shell_signal := True\<rparr>), lx1)
      else (no_ident st, lx1))"

text \<open>Assignment, comparison, or the \<^verbatim>\<open>=\<close> of \<^verbatim>\<open>--key=value\<close>.\<close>

definition step_eq :: "line_state \<Rightarrow> TSLexer \<Rightarrow> line_state \<times> TSLexer" where
  "step_eq st lx =
     (let lx1 = advance lx in
      if lookahead lx1 = ch CHR ''='' \<and> python_eval_depth st = 0 then
        (no_ident (st\<lparr>has_comparison := True, prev_was_flag := False\<rparr>), advance lx1)
      else if prev_was_flag st then (no_ident st, lx1)
      else if python_eval_depth st = 0 then
        (no_ident (st\<lparr>has_assignment := True, prev_was_flag := False\<rparr>), lx1)
      else (no_ident st, lx1))"

text \<open>\<^verbatim>\<open>!=\<close>, the function macro \<^verbatim>\<open>identifier!(\<close> and the subprocess macro \<^verbatim>\<open>identifier! \<close>.\<close>

definition step_bang :: "line_state \<Rightarrow> TSLexer \<Rightarrow> line_state \<times> TSLexer" where
  "step_bang st lx =
     (let lx1 = advance lx in
      if lookahead lx1 = ch CHR ''='' \<and> python_eval_depth st = 0 then
        (no_ident (st\<lparr>has_comparison := True\<rparr>), lx1)
      else if prev_was_ident_no_space st \<and> lookahead lx1 = ch CHR ''('' then
        (no_ident (st\<lparr>has_macro_call := True\<rparr>), lx1)
      else if prev_was_ident_no_space st \<and> is_whitespace (lookahead lx1) then
        (no_ident (st\<lparr>has_subprocess_macro := True\<rparr>), lx1)
      else (no_ident st, lx1))"

definition step_colon :: "line_state \<Rightarrow> TSLexer \<Rightarrow> line_state \<times> TSLexer" where
  "step_colon st lx =
     (let lx1 = advance lx in
      if lookahead lx1 = ch CHR ''='' \<and> python_eval_depth st = 0 then
        (no_ident (st\<lparr>has_comparison := True\<rparr>), lx1)
      else (no_ident st, lx1))"

text \<open>\<^verbatim>\<open>$VAR\<close>, \<^verbatim>\<open>$(cmd)\<close> and \<^verbatim>\<open>$[cmd]\<close> after whitespace.\<close>

definition step_dollar :: "line_state \<Rightarrow> TSLexer \<Rightarrow> line_state \<times> TSLexer" where
  "step_dollar st lx =
     (let lx1 = advance lx in
      ((if is_identifier_start (lookahead lx1) then shell_env_arg st
        else if lookahead lx1 = ch CHR ''('' \<or> lookahead lx1 = ch CHR ''['' then shell_env_arg st
        else st)\<lparr>prev_was_ident_no_space := False, prev_was_space := False\<rparr>, lx1))"

text \<open>\<^verbatim>\<open>@$(\<close> and \<^verbatim>\<open>@(\<close> after whitespace.\<close>

definition step_at :: "line_state \<Rightarrow> TSLexer \<Rightarrow> line_state \<times> TSLexer" where
  "step_at st lx =
     (let lx1 = advance lx in
      if lookahead lx1 = ch CHR ''$'' then
        ((if lookahead (advance lx1) = ch CHR ''('' then shell_env_arg st else st)
           \<lparr>prev_was_ident_no_space := False, prev_was_space := False\<rparr>, advance lx1)
      else if lookahead lx1 = ch CHR ''('' then
        ((shell_env_arg (st\<lparr>python_eval_depth := 1\<rparr>))
           \<lparr>prev_was_ident_no_space := False, prev_was_space := False\<rparr>, advance lx1)
      else (st\<lparr>prev_was_ident_no_space := False, prev_was_space := False\<rparr>, lx1))"

text \<open>One pass through the body of the loop, with \<^verbatim>\<open>c = lexer->lookahead\<close>.\<close>

definition line_step :: "line_state \<Rightarrow> TSLexer \<Rightarrow> line_state \<times> TSLexer" where
  "line_step st lx =
     (let c = lookahead lx in
      if \<not> in_string st \<and> (c = c_dquote \<or> c = c_squote) then
        (st\<lparr>in_string := True, string_char := c, prev_was_ident_no_space := False\<rparr>, advance lx)
      else if in_string st then step_in_string st lx
      else if c = ch CHR ''-'' then step_minus st lx
      else if c = ch CHR ''|'' then step_pipe st lx
      else if c = ch CHR ''&'' then step_amp st lx
      else if c = ch CHR ''>'' then step_gt st lx
      else if c = ch CHR ''<'' then step_lt st lx
      else if c = ch CHR ''='' then step_eq st lx
      else if c = ch CHR ''!'' then step_bang st lx
      else if c = ch CHR '':'' then step_colon st lx
      else if c = ch CHR ''('' \<and> python_eval_depth st > 0 then
        (no_ident (st\<lparr>python_eval_depth := python_eval_depth st + 1\<rparr>), advance lx)
      else if c = ch CHR '')'' \<and> python_eval_depth st > 0 then
        (no_ident (st\<lparr>python_eval_depth := python_eval_depth st - 1\<rparr>), advance lx)
      else if c = ch CHR ''('' \<and> prev_was_ident_no_space st \<and> \<not> seen_shell_signal st then
        (no_ident (st\<lparr>has_call_parens := True\<rparr>), advance lx)
      else if c = ch CHR ''['' \<and> prev_was_ident_no_space st \<and> \<not> seen_shell_signal st then
        (no_ident (st\<lparr>has_subscript := True\<rparr>), advance lx)
      else if c = ch CHR ''.'' \<and> prev_was_ident_no_space st \<and> \<not> seen_shell_signal st then
        (no_ident (st\<lparr>has_attribute := True\<rparr>), advance lx)
      else if is_identifier_start c then
        (st\<lparr>prev_was_ident_no_space := True\<rparr>, skip_identifier lx)
      else if c = ch CHR ''$'' \<and> prev_was_space st then step_dollar st lx
      else if c = ch CHR ''@'' \<and> prev_was_space st then step_at st lx
      else if is_whitespace c then
        (st\<lparr>prev_was_ident_no_space := False, prev_was_space := True, prev_was_flag := False\<rparr>,
         advance lx)
      else (st\<lparr>prev_was_ident_no_space := False, prev_was_space := False\<rparr>, advance lx))"

lemmas line_step_defs =
  step_in_string_def step_minus_def step_pipe_def step_amp_def step_gt_def step_lt_def
  step_eq_def step_bang_def step_colon_def step_dollar_def step_at_def

lemma remaining_advance_advance_less:
  "lookahead lx \<noteq> 0 \<Longrightarrow> length (remaining (advance (advance lx))) < length (remaining lx)"
  using remaining_advance_less [of lx] remaining_advance_le [of "advance lx"] by simp

lemma remaining_advance_skip_whitespace_less:
  "lookahead lx \<noteq> 0 \<Longrightarrow>
   length (remaining (skip_whitespace (advance lx))) < length (remaining lx)"
  using remaining_advance_less [of lx] remaining_skip_whitespace_le [of "advance lx"] by simp

lemma remaining_step_handlers_less:
  assumes "lookahead lx \<noteq> 0"
  shows "length (remaining (snd (step_in_string st lx))) < length (remaining lx)"
    and "length (remaining (snd (step_minus st lx))) < length (remaining lx)"
    and "length (remaining (snd (step_pipe st lx))) < length (remaining lx)"
    and "length (remaining (snd (step_amp st lx))) < length (remaining lx)"
    and "length (remaining (snd (step_gt st lx))) < length (remaining lx)"
    and "length (remaining (snd (step_lt st lx))) < length (remaining lx)"
    and "length (remaining (snd (step_eq st lx))) < length (remaining lx)"
    and "length (remaining (snd (step_bang st lx))) < length (remaining lx)"
    and "length (remaining (snd (step_colon st lx))) < length (remaining lx)"
    and "length (remaining (snd (step_dollar st lx))) < length (remaining lx)"
    and "length (remaining (snd (step_at st lx))) < length (remaining lx)"
  using assms
  by (simp_all add: line_step_defs Let_def remaining_advance_advance_less
        remaining_advance_skip_whitespace_less remaining_advance_less)

lemma remaining_line_step_less:
  assumes "lookahead lx \<noteq> 0"
  shows "length (remaining (snd (line_step st lx))) < length (remaining lx)"
  using assms
  by (simp add: line_step_def Let_def remaining_step_handlers_less remaining_advance_less
        remaining_skip_identifier_less)

text \<open>\<^verbatim>\<open>while (lexer->lookahead && lexer->lookahead != '\n') { ... }\<close>\<close>

function rest_of_line :: "line_state \<Rightarrow> TSLexer \<Rightarrow> line_state \<times> TSLexer" where
  "rest_of_line st lx =
     (if lookahead lx \<noteq> 0 \<and> lookahead lx \<noteq> c_newline
      then (case line_step st lx of (st', lx') \<Rightarrow> rest_of_line st' lx')
      else (st, lx))"
  by pat_completeness auto
termination
proof (relation "measure (\<lambda>(st, lx). length (remaining lx))")
  show "wf (measure (\<lambda>(st, lx). length (remaining lx)))" by simp
next
  fix st lx x y
  assume "lookahead lx \<noteq> 0 \<and> lookahead lx \<noteq> c_newline" and "(x, y) = line_step st lx"
  then have "lookahead lx \<noteq> 0" and "y = snd (line_step st lx)"
    by (simp, cases "line_step st lx", simp)
  then show "((x, y), st, lx) \<in> measure (\<lambda>(st, lx). length (remaining lx))"
    using remaining_line_step_less [of lx st] by simp
qed

declare rest_of_line.simps [simp del]

subsection \<open>Analysis and decision\<close>

text \<open>
  Everything the detector does before its decision: the mark at the entry position, the
  leading whitespace, the probes, the first identifier, and the scan of the rest of the
  line. It either returns early or reaches the decision with the signals of the line and
  the first identifier.
\<close>

definition wrap_result :: "Delimiter \<Rightarrow> DetectResult \<times> TSLexer \<Rightarrow> Detected" where
  "wrap_result sd = (\<lambda>(r, lx).
     \<lparr>det_result = r, det_lexer = lx, subprocess_macro_end = 0, string_delimiter = sd\<rparr>)"

definition line_analysis ::
  "TSLexer \<Rightarrow> Delimiter \<Rightarrow> (Detected, line_state \<times> int list \<times> TSLexer) flow" where
  "line_analysis lexer sd =
     (case detect_probes (skip_whitespace (mark_end lexer)) of
        Return r \<Rightarrow> Return (wrap_result sd r)
      | Next (lx1, pos) \<Rightarrow>
          then_flow (detect_first_identifier lx1 pos sd) (\<lambda>(lx2, first_ident, pos2).
            (case detect_comma_line lx2 first_ident of
               Return r \<Rightarrow> Return (wrap_result sd r)
             | Next lx3 \<Rightarrow>
                 (case rest_of_line (initial_line_state first_ident) lx3 of
                    (st, lx4) \<Rightarrow> Next (st, first_ident, lx4)))))"

definition detect_subprocess_line :: "TSLexer \<Rightarrow> Delimiter \<Rightarrow> Detected" where
  "detect_subprocess_line lexer sd =
     (case line_analysis lexer sd of
        Return d \<Rightarrow> d
      | Next (st, first_ident, lx) \<Rightarrow>
          wrap_result sd
            (if has_assignment st \<or> has_comparison st \<or> has_call_parens st \<or>
                has_subscript st \<or> has_attribute st \<or> has_macro_call st
             then (DETECT_NONE, lx)
             else if has_flag st \<or> has_pipe st \<or> has_redirect st \<or> has_env_arg st \<or>
                     has_subprocess_macro st
             then (DETECT_SUBPROCESS, lx)
             else if length first_ident > 0 \<and> is_shell_command first_ident
             then (DETECT_SUBPROCESS, lx)
             else (DETECT_NONE, lx)))"


section \<open>The scan function\<close>

text \<open>
  \<^verbatim>\<open>valid_symbols\<close> is indexed by the token kind. A call of
  \<^verbatim>\<open>tree_sitter_xonsh_external_scanner_scan\<close> yields its boolean result, the scanner
  state and the lexer as the call leaves them; when the result is true the token is
  \<^const>\<open>result_symbol\<close> from \<^const>\<open>token_start\<close> to \<^const>\<open>marked_end\<close>.
\<close>

type_synonym valid_symbols = "TokenType \<Rightarrow> bool"

type_synonym scan_result = "bool \<times> Scanner \<times> TSLexer"

definition error_recovery_mode :: "valid_symbols \<Rightarrow> bool" where
  "error_recovery_mode valid = (valid STRING_CONTENT \<and> valid INDENT)"

definition within_brackets :: "valid_symbols \<Rightarrow> bool" where
  "within_brackets valid = (valid CLOSE_BRACE \<or> valid CLOSE_PAREN \<or> valid CLOSE_BRACKET)"

definition emit :: "TokenType \<Rightarrow> TSLexer \<Rightarrow> TSLexer" where
  "emit t lx = lx\<lparr>result_symbol := t\<rparr>"

definition pop_delimiter :: "Scanner \<Rightarrow> Scanner" where
  "pop_delimiter s = s\<lparr>delimiters := butlast (delimiters s), inside_f_string := False\<rparr>"

definition push_delimiter :: "Scanner \<Rightarrow> Delimiter \<Rightarrow> Scanner" where
  "push_delimiter s d = s\<lparr>delimiters := delimiters s @ [d], inside_f_string := is_format d\<rparr>"

subsection \<open>Format-string brace escape\<close>

text \<open>
  Falls through with the value of \<^verbatim>\<open>advanced_once\<close>; the only assignment of
  \<^verbatim>\<open>true\<close> to it is followed by a return on both paths.
\<close>

definition scan_escape :: "Scanner \<Rightarrow> TSLexer \<Rightarrow> valid_symbols \<Rightarrow> (scan_result, bool) flow" where
  "scan_escape s lexer valid =
     (if valid ESCAPE_INTERPOLATION \<and> length (delimiters s) > 0 \<and>
         (lookahead lexer = ch CHR ''{'' \<or> lookahead lexer = ch CHR ''}'') \<and>
         \<not> error_recovery_mode valid then
        (if is_format (last (delimiters s)) then
           (let is_left_brace = (lookahead lexer = ch CHR ''{'');
                lx1 = advance (mark_end lexer)
            in if (lookahead lx1 = ch CHR ''{'' \<and> is_left_brace) \<or>
                  (lookahead lx1 = ch CHR ''}'' \<and> \<not> is_left_brace)
               then Return (True, s, emit ESCAPE_INTERPOLATION (mark_end (advance lx1)))
               else Return (False, s, lx1))
         else Next False)
      else Next False)"

subsection \<open>String content\<close>

text \<open>A backslash in a raw string: step over it, an escaped quote or backslash, and a line end.\<close>

definition content_raw_backslash :: "Delimiter \<Rightarrow> TSLexer \<Rightarrow> TSLexer" where
  "content_raw_backslash d lx =
     (let lx1 = advance lx;
          lx2 = (if lookahead lx1 = end_character d \<or> lookahead lx1 = c_backslash
                 then advance lx1 else lx1)
      in if lookahead lx2 = c_cr then
           (if lookahead (advance lx2) = c_newline then advance (advance lx2) else advance lx2)
         else if lookahead lx2 = c_newline then advance lx2
         else lx2)"

text \<open>The closing quote of a triple-quoted string.\<close>

definition content_triple_quote ::
  "Scanner \<Rightarrow> int \<Rightarrow> TSLexer \<Rightarrow> bool \<Rightarrow> scan_result" where
  "content_triple_quote s end_char lx has_content =
     (let lx1 = advance (mark_end lx) in
      if lookahead lx1 = end_char then
        (let lx2 = advance lx1 in
         if lookahead lx2 = end_char then
           (if has_content then (True, s, emit STRING_CONTENT lx2)
            else (True, pop_delimiter s, emit STRING_END (mark_end (advance lx2))))
         else (True, s, emit STRING_CONTENT (mark_end lx2)))
      else (True, s, emit STRING_CONTENT (mark_end lx1)))"

text \<open>
  One pass through the body of \<^verbatim>\<open>while (lexer->lookahead)\<close>: it returns from scan, or
  goes round again with the lexer and \<^verbatim>\<open>has_content\<close>. After the bytes branch has
  stepped over \<^verbatim>\<open>\N\<close>, \<^verbatim>\<open>\u\<close> or \<^verbatim>\<open>\U\<close>, control reaches the \<^verbatim>\<open>advance\<close> and
  \<^verbatim>\<open>has_content = true\<close> that end the body.
\<close>

definition content_step ::
  "Scanner \<Rightarrow> Delimiter \<Rightarrow> bool \<Rightarrow> TSLexer \<times> bool \<Rightarrow> (scan_result, TSLexer \<times> bool) flow" where
  "content_step s d advanced_once = (\<lambda>(lx, has_content).
     if (advanced_once \<or> lookahead lx = ch CHR ''{'' \<or> lookahead lx = ch CHR ''}'') \<and>
        is_format d then
       Return (has_content, s, emit STRING_CONTENT (mark_end lx))
     else if lookahead lx = c_backslash then
       (if is_raw d then Next (content_raw_backslash d lx, has_content)
        else if is_bytes d then
          (let lx1 = advance (mark_end lx) in
           if lookahead lx1 = ch CHR ''N'' \<or> lookahead lx1 = ch CHR ''u'' \<or>
              lookahead lx1 = ch CHR ''U''
           then Next (advance (advance lx1), True)
           else Return (has_content, s, emit STRING_CONTENT lx1))
        else Return (has_content, s, emit STRING_CONTENT (mark_end lx)))
     else if lookahead lx = end_character d then
       (if is_triple d then Return (content_triple_quote s (end_character d) lx has_content)
        else if has_content then Return (True, s, mark_end (emit STRING_CONTENT lx))
        else Return (True, pop_delimiter s, mark_end (emit STRING_END (advance lx))))
     else if lookahead lx = c_newline \<and> has_content \<and> \<not> is_triple d then
       Return (False, s, lx)
     else Next (advance lx, True))"

lemma remaining_content_raw_backslash_less:
  "lookahead lx \<noteq> 0 \<Longrightarrow>
   length (remaining (content_raw_backslash d lx)) < length (remaining lx)"
  using remaining_advance_less [of lx] remaining_advance_le [of "advance lx"]
    remaining_advance_le [of "advance (advance lx)"]
    remaining_advance_le [of "advance (advance (advance lx))"]
  by (simp add: content_raw_backslash_def Let_def)

lemma remaining_content_step_less:
  assumes "lookahead lx \<noteq> 0" and "content_step s d a (lx, hc) = Next (lx', hc')"
  shows "length (remaining lx') < length (remaining lx)"
  using assms remaining_advance_less [of lx] remaining_advance_le [of "advance lx"]
    remaining_advance_le [of "advance (advance lx)"]
    remaining_content_raw_backslash_less [of lx d]
  by (auto simp: content_step_def Let_def mark_end_def advance_def lexer_advance_def
      lookahead_def split: if_splits list.splits)

function content_loop ::
  "Scanner \<Rightarrow> Delimiter \<Rightarrow> bool \<Rightarrow> TSLexer \<times> bool \<Rightarrow> (scan_result, TSLexer) flow" where
  "content_loop s d advanced_once c =
     (if lookahead (fst c) \<noteq> 0 then
        (case content_step s d advanced_once c of
           Return r \<Rightarrow> Return r
         | Next c' \<Rightarrow> content_loop s d advanced_once c')
      else Next (fst c))"
  by pat_completeness auto
termination
proof (relation "measure (\<lambda>(s, d, a, c). length (remaining (fst c)))")
  show "wf (measure (\<lambda>(s, d, a, c). length (remaining (fst c))))" by simp
next
  fix s d a c c'
  assume "lookahead (fst c) \<noteq> 0" and "content_step s d a c = Next c'"
  then have "length (remaining (fst c')) < length (remaining (fst c))"
    using remaining_content_step_less [of "fst c" s d a "snd c" "fst c'" "snd c'"] by simp
  then show "((s, d, a, c'), s, d, a, c) \<in> measure (\<lambda>(s, d, a, c). length (remaining (fst c)))"
    by simp
qed

declare content_loop.simps [simp del]

definition scan_string_content ::
  "Scanner \<Rightarrow> TSLexer \<Rightarrow> valid_symbols \<Rightarrow> bool \<Rightarrow> (scan_result, TSLexer) flow" where
  "scan_string_content s lexer valid advanced_once =
     (if valid STRING_CONTENT \<and> length (delimiters s) > 0 \<and> \<not> error_recovery_mode valid
      then content_loop s (last (delimiters s)) advanced_once (lexer, advanced_once)
      else Next lexer)"


subsection \<open>Layout scan\<close>

text \<open>
  The variables of the layout loop: the lexer, \<^verbatim>\<open>found_end_of_line\<close>,
  \<^verbatim>\<open>indent_length\<close> (a \<^verbatim>\<open>uint32_t\<close>) and \<^verbatim>\<open>first_comment_indent_length\<close> (an
  \<^verbatim>\<open>int32_t\<close>, read as its signed value).
\<close>

type_synonym layout_state = "TSLexer \<times> bool \<times> 32 word \<times> int"

datatype layout_ctl = Abort TSLexer | Break layout_state | Again layout_state

text \<open>\<^verbatim>\<open>while (lexer->lookahead && lexer->lookahead != '\n') skip(lexer);\<close>\<close>

function skip_comment :: "TSLexer \<Rightarrow> TSLexer" where
  "skip_comment lx =
     (if lookahead lx \<noteq> 0 \<and> lookahead lx \<noteq> c_newline then skip_comment (skip lx) else lx)"
  by pat_completeness auto
termination
  by (relation "measure (\<lambda>lx. length (remaining lx))")
     (auto simp: skip_def lexer_advance_def lookahead_def split: list.splits)

declare skip_comment.simps [simp del]

definition layout_step :: "valid_symbols \<Rightarrow> layout_state \<Rightarrow> layout_ctl" where
  "layout_step valid = (\<lambda>(lx, found_end_of_line, indent_length, first_comment_indent_length).
     if lookahead lx = c_newline then Again (skip lx, True, 0, first_comment_indent_length)
     else if lookahead lx = c_space then
       Again (skip lx, found_end_of_line, indent_length + 1, first_comment_indent_length)
     else if lookahead lx = c_cr \<or> lookahead lx = c_ff then
       Again (skip lx, found_end_of_line, 0, first_comment_indent_length)
     else if lookahead lx = c_tab then
       Again (skip lx, found_end_of_line, indent_length + 8, first_comment_indent_length)
     else if lookahead lx = ch CHR ''#'' \<and>
             (valid INDENT \<or> valid DEDENT \<or> valid NEWLINE \<or> valid EXCEPT) then
       (if \<not> found_end_of_line then Abort lx
        else Again (skip (skip_comment lx), found_end_of_line, 0,
                    (if first_comment_indent_length = - 1 then sint indent_length
                     else first_comment_indent_length)))
     else if lookahead lx = c_backslash then
       (let lx1 = skip lx;
            lx2 = (if lookahead lx1 = c_cr then skip lx1 else lx1)
        in if lookahead lx2 = c_newline \<or> eof lx2
           then Again (skip lx2, found_end_of_line, indent_length, first_comment_indent_length)
           else Abort lx2)
     else if eof lx then Break (lx, True, 0, first_comment_indent_length)
     else Break (lx, found_end_of_line, indent_length, first_comment_indent_length))"

lemma remaining_skip_le: "length (remaining (skip lx)) \<le> length (remaining lx)"
  by (simp add: skip_def remaining_lexer_advance_le)

lemma remaining_skip_less:
  "lookahead lx \<noteq> 0 \<Longrightarrow> length (remaining (skip lx)) < length (remaining lx)"
  by (simp add: skip_def remaining_lexer_advance_less lookahead_nonzero_remaining)

lemma remaining_skip_comment_le: "length (remaining (skip_comment lx)) \<le> length (remaining lx)"
proof (induction lx rule: skip_comment.induct)
  case (1 lx)
  show ?case
  proof (cases "lookahead lx \<noteq> 0 \<and> lookahead lx \<noteq> c_newline")
    case True
    with 1 have "length (remaining (skip_comment (skip lx))) \<le> length (remaining (skip lx))"
      by simp
    also have "\<dots> \<le> length (remaining lx)" by (rule remaining_skip_le)
    finally show ?thesis using True by (subst skip_comment.simps) simp
  next
    case False
    then show ?thesis by (subst skip_comment.simps) auto
  qed
qed

lemma remaining_skip_comment_less:
  assumes "lookahead lx = ch CHR ''#''"
  shows "length (remaining (skip_comment lx)) < length (remaining lx)"
proof -
  from assms have "lookahead lx \<noteq> 0" and c: "lookahead lx \<noteq> 0 \<and> lookahead lx \<noteq> c_newline"
    by simp_all
  then have "length (remaining (skip lx)) < length (remaining lx)"
    by (simp add: remaining_skip_less)
  moreover have "length (remaining (skip_comment (skip lx))) \<le> length (remaining (skip lx))"
    by (rule remaining_skip_comment_le)
  ultimately show ?thesis using c by (subst skip_comment.simps) simp
qed

lemma remaining_layout_step_less:
  assumes "layout_step valid (lx, f, il, fc) = Again (lx', f', il', fc')"
  shows "length (remaining lx') < length (remaining lx)"
proof -
  have a: "lookahead lx \<noteq> 0 \<Longrightarrow> length (remaining (skip lx)) < length (remaining lx)"
    by (rule remaining_skip_less)
  have b: "lookahead lx \<noteq> 0 \<Longrightarrow> length (remaining (skip (skip lx))) < length (remaining lx)"
    using remaining_skip_less [of lx] remaining_skip_le [of "skip lx"] by simp
  have c: "lookahead lx \<noteq> 0 \<Longrightarrow>
           length (remaining (skip (skip (skip lx)))) < length (remaining lx)"
    using b remaining_skip_le [of "skip (skip lx)"] by simp
  have d: "lookahead lx = ch CHR ''#'' \<Longrightarrow>
           length (remaining (skip (skip_comment lx))) < length (remaining lx)"
    using remaining_skip_comment_less [of lx] remaining_skip_le [of "skip_comment lx"] by simp
  show ?thesis
    using assms by (auto simp: layout_step_def Let_def a b c d split: if_splits)
qed

function layout_loop :: "valid_symbols \<Rightarrow> layout_state \<Rightarrow> (TSLexer, layout_state) flow" where
  "layout_loop valid st =
     (case layout_step valid st of
        Abort lx \<Rightarrow> Return lx
      | Break st' \<Rightarrow> Next st'
      | Again st' \<Rightarrow> layout_loop valid st')"
  by pat_completeness auto
termination
proof (relation "measure (\<lambda>(valid, st). length (remaining (fst st)))")
  show "wf (measure (\<lambda>(valid, st). length (remaining (fst st))))" by simp
next
  fix valid :: valid_symbols and st st' :: layout_state
  assume a: "layout_step valid st = Again st'"
  obtain lx f il fc where st: "st = (lx, f, il, fc)" by (cases st) auto
  obtain lx' f' il' fc' where st': "st' = (lx', f', il', fc')" by (cases st') auto
  from a st st' have "length (remaining lx') < length (remaining lx)"
    using remaining_layout_step_less by simp
  with st st' show "((valid, st'), valid, st) \<in> measure (\<lambda>(valid, st). length (remaining (fst st)))"
    by simp
qed

declare layout_loop.simps [simp del]

subsection \<open>Layout emission\<close>

definition next_tok_is_string_start :: "TSLexer \<Rightarrow> bool" where
  "next_tok_is_string_start lx =
     (lookahead lx = c_dquote \<or> lookahead lx = c_squote \<or> lookahead lx = c_backquote)"

text \<open>
  \<^verbatim>\<open>indent_length > current_indent_length\<close> compares a \<^verbatim>\<open>uint32_t\<close> with a
  \<^verbatim>\<open>uint16_t\<close>, unsigned; \<^verbatim>\<open>array_push(&scanner->indents, indent_length)\<close> stores the
  \<^verbatim>\<open>uint32_t\<close> into a \<^verbatim>\<open>uint16_t\<close> element, which keeps its low 16 bits.
\<close>

definition layout_indent_dedent ::
  "Scanner \<Rightarrow> valid_symbols \<Rightarrow> layout_state \<Rightarrow> (scan_result, unit) flow" where
  "layout_indent_dedent s valid = (\<lambda>(lx, found_end_of_line, indent_length, first_comment).
     if length (indents s) > 0 then
       (let current_indent_length = last (indents s) in
        if valid INDENT \<and> indent_length > ucast current_indent_length then
          Return (True, s\<lparr>indents := indents s @ [ucast indent_length]\<rparr>, emit INDENT lx)
        else if (valid DEDENT \<or>
                 (\<not> valid NEWLINE \<and> \<not> (valid STRING_START \<and> next_tok_is_string_start lx) \<and>
                  \<not> within_brackets valid)) \<and>
                indent_length < ucast current_indent_length \<and> \<not> inside_f_string s \<and>
                first_comment < sint (ucast current_indent_length :: 32 word) then
          Return (True, s\<lparr>indents := butlast (indents s)\<rparr>, emit DEDENT lx)
        else Next ())
     else Next ())"

definition layout_emit ::
  "Scanner \<Rightarrow> valid_symbols \<Rightarrow> layout_state \<Rightarrow> (scan_result, unit) flow" where
  "layout_emit s valid st =
     (if fst (snd st) then
        then_flow (layout_indent_dedent s valid st) (\<lambda>_.
          if valid NEWLINE \<and> \<not> error_recovery_mode valid
          then Return (True, s, emit NEWLINE (fst st))
          else Next ())
      else Next ())"

text \<open>
  The first part of scan: brace escape, string content, the mark, the layout loop and
  the layout emission. It returns from scan or falls through to the dispatch on the
  lookahead with the lexer and \<^verbatim>\<open>first_comment_indent_length\<close>.
\<close>

definition scan_front ::
  "Scanner \<Rightarrow> TSLexer \<Rightarrow> valid_symbols \<Rightarrow> (scan_result, TSLexer \<times> int) flow" where
  "scan_front s lexer valid =
     then_flow (scan_escape s lexer valid) (\<lambda>advanced_once.
     then_flow (scan_string_content s lexer valid advanced_once) (\<lambda>lx1.
       (case layout_loop valid (mark_end lx1, False, 0, - 1) of
          Return lx \<Rightarrow> Return (False, s, lx)
        | Next st \<Rightarrow>
            then_flow (layout_emit s valid st) (\<lambda>_. Next (fst st, snd (snd (snd st)))))))"


subsection \<open>Operator and keyword disambiguation\<close>

definition scan_logical ::
  "Scanner \<Rightarrow> valid_symbols \<Rightarrow> TSLexer \<Rightarrow> (scan_result, unit) flow" where
  "scan_logical s valid lx =
     (if valid LOGICAL_AND \<or> valid LOGICAL_OR \<or> valid BACKGROUND_AMP then
        (if lookahead lx = ch CHR ''&'' then
           (let lx1 = advance lx in
            if lookahead lx1 = ch CHR ''&'' then
              (if valid LOGICAL_AND then Return (True, s, emit LOGICAL_AND (mark_end (advance lx1)))
               else Return (False, s, lx1))
            else if valid BACKGROUND_AMP then Return (True, s, emit BACKGROUND_AMP (mark_end lx1))
            else Return (False, s, lx1))
         else if lookahead lx = ch CHR ''|'' \<and> valid LOGICAL_OR then
           (let lx1 = advance lx in
            if lookahead lx1 = ch CHR ''|''
            then Return (True, s, emit LOGICAL_OR (mark_end (advance lx1)))
            else Return (False, s, lx1))
         else Next ())
      else Next ())"

text \<open>\<^verbatim>\<open>!isalnum(lexer->lookahead) && lexer->lookahead != '_'\<close>\<close>

definition word_boundary :: "TSLexer \<Rightarrow> bool" where
  "word_boundary lx = (\<not> isalnum (lookahead lx) \<and> lookahead lx \<noteq> ch CHR ''_'')"

definition scan_keyword ::
  "Scanner \<Rightarrow> valid_symbols \<Rightarrow> TSLexer \<Rightarrow> (scan_result, unit) flow" where
  "scan_keyword s valid lx =
     (if valid KEYWORD_AND \<or> valid KEYWORD_OR then
        (if valid KEYWORD_AND \<and> lookahead lx = ch CHR ''a'' then
           (let lx1 = advance lx in
            if lookahead lx1 = ch CHR ''n'' then
              (let lx2 = advance lx1 in
               if lookahead lx2 = ch CHR ''d'' then
                 (let lx3 = advance lx2 in
                  if word_boundary lx3 then Return (True, s, emit KEYWORD_AND (mark_end lx3))
                  else Return (False, s, lx3))
               else Return (False, s, lx2))
            else Return (False, s, lx1))
         else if valid KEYWORD_OR \<and> lookahead lx = ch CHR ''o'' then
           (let lx1 = advance lx in
            if lookahead lx1 = ch CHR ''r'' then
              (let lx2 = advance lx1 in
               if word_boundary lx2 then Return (True, s, emit KEYWORD_OR (mark_end lx2))
               else Return (False, s, lx2))
            else Return (False, s, lx1))
         else Next ())
      else Next ())"

subsection \<open>Opening quotes\<close>

text \<open>
  The opening quote \<open>q\<close> at the lookahead: record it, step over it and mark the end;
  two more of the same make the string triple-quoted. The source has this block once for
  the single and once for the double quote.
\<close>

definition open_quote_with :: "int \<Rightarrow> Delimiter \<Rightarrow> TSLexer \<Rightarrow> Delimiter \<times> TSLexer" where
  "open_quote_with q d lx =
     (let d1 = set_end_character d q;
          lx1 = mark_end (advance lx)
      in if lookahead lx1 = q then
           (let lx2 = advance lx1 in
            if lookahead lx2 = q then (set_triple d1, mark_end (advance lx2)) else (d1, lx2))
         else (d1, lx1))"

definition open_quote :: "Delimiter \<Rightarrow> TSLexer \<Rightarrow> Delimiter \<times> TSLexer" where
  "open_quote d lx =
     (if lookahead lx = c_squote then open_quote_with c_squote d lx
      else if lookahead lx = c_dquote then open_quote_with c_dquote d lx
      else (d, lx))"

subsection \<open>Subprocess, macro and prefix detection\<close>

definition check_subprocess :: "valid_symbols \<Rightarrow> TSLexer \<Rightarrow> int \<Rightarrow> bool" where
  "check_subprocess valid lx first_comment =
     ((valid SUBPROCESS_START \<or> valid SUBPROCESS_MACRO_START \<or> valid BLOCK_MACRO_START) \<and>
      \<not> within_brackets valid \<and> \<not> error_recovery_mode valid \<and>
      first_comment = - 1 \<and>
      lookahead lx \<noteq> ch CHR ''#'' \<and>
      \<not> (lookahead lx = c_dquote \<or> lookahead lx = c_squote))"

definition scan_subprocess ::
  "Scanner \<Rightarrow> valid_symbols \<Rightarrow> TSLexer \<Rightarrow> int \<Rightarrow> (scan_result, TSLexer) flow" where
  "scan_subprocess s valid lx first_comment =
     (if check_subprocess valid lx first_comment then
        (let det = detect_subprocess_line lx new_delimiter;
             result = det_result det;
             lx1 = det_lexer det
         in if result = DETECT_BLOCK_MACRO \<and> valid BLOCK_MACRO_START then
              Return (True, s, emit BLOCK_MACRO_START (mark_end lx1))
            else if result = DETECT_SUBPROCESS_MACRO \<and> valid SUBPROCESS_MACRO_START then
              Return (True, s, emit SUBPROCESS_MACRO_START (mark_end lx1))
            else if result = DETECT_SUBPROCESS \<and> valid SUBPROCESS_START then
              Return (True, s, emit SUBPROCESS_START lx1)
            else if result = DETECT_PATH_PREFIX \<and> valid PATH_PREFIX then
              Return (True, s, emit PATH_PREFIX (mark_end lx1))
            else if result = DETECT_STRING \<and> valid STRING_START then
              (case open_quote (string_delimiter det) lx1 of (string_delim, lx2) \<Rightarrow>
                 if end_character string_delim \<noteq> 0
                 then Return (True, push_delimiter s string_delim, emit STRING_START lx2)
                 else Next lx2)
            else Next lx1)
      else Next lx)"

subsection \<open>Path prefix\<close>

definition is_quote :: "int \<Rightarrow> bool" where
  "is_quote c = (c = c_squote \<or> c = c_dquote)"

definition scan_path_prefix ::
  "Scanner \<Rightarrow> valid_symbols \<Rightarrow> TSLexer \<Rightarrow> int \<Rightarrow> (scan_result, unit) flow" where
  "scan_path_prefix s valid lx first_comment =
     (if first_comment = - 1 \<and> valid PATH_PREFIX then
        (if lookahead lx = ch CHR ''p'' \<or> lookahead lx = ch CHR ''P'' then
           (let lx1 = advance lx in
            if is_quote (lookahead lx1) then Return (True, s, emit PATH_PREFIX (mark_end lx1))
            else if lookahead lx1 = ch CHR ''f'' \<or> lookahead lx1 = ch CHR ''F'' \<or>
                    lookahead lx1 = ch CHR ''r'' \<or> lookahead lx1 = ch CHR ''R'' then
              (let lx2 = advance lx1 in
               if is_quote (lookahead lx2) then Return (True, s, emit PATH_PREFIX (mark_end lx2))
               else Return (False, s, lx2))
            else Return (False, s, lx1))
         else Next ())
      else Next ())"

subsection \<open>String start\<close>

text \<open>The loop over the prefix letters, with \<^verbatim>\<open>delimiter\<close> and \<^verbatim>\<open>has_flags\<close>.\<close>

function string_prefix_loop :: "Delimiter \<Rightarrow> bool \<Rightarrow> TSLexer \<Rightarrow> Delimiter \<times> bool \<times> TSLexer" where
  "string_prefix_loop d has_flags lx =
     (if lookahead lx \<noteq> 0 then
        (if lookahead lx = ch CHR ''f'' \<or> lookahead lx = ch CHR ''F''
         then string_prefix_loop (set_format d) True (advance lx)
         else if lookahead lx = ch CHR ''r'' \<or> lookahead lx = ch CHR ''R''
         then string_prefix_loop (set_raw d) True (advance lx)
         else if lookahead lx = ch CHR ''b'' \<or> lookahead lx = ch CHR ''B''
         then string_prefix_loop (set_bytes d) True (advance lx)
         else if lookahead lx \<noteq> ch CHR ''u'' \<and> lookahead lx \<noteq> ch CHR ''U''
         then (d, has_flags, lx)
         else string_prefix_loop d True (advance lx))
      else (d, has_flags, lx))"
  by pat_completeness auto
termination
  by (relation "measure (\<lambda>(d, h, lx). length (remaining lx))")
     (simp_all add: remaining_advance_less)

declare string_prefix_loop.simps [simp del]

definition scan_string_start ::
  "Scanner \<Rightarrow> valid_symbols \<Rightarrow> TSLexer \<Rightarrow> int \<Rightarrow> scan_result" where
  "scan_string_start s valid lx first_comment =
     (if first_comment = - 1 \<and> valid STRING_START then
        (case string_prefix_loop new_delimiter False lx of (d, has_flags, lx1) \<Rightarrow>
           if lookahead lx1 = c_backquote then (False, s, lx1)
           else
             (case open_quote d lx1 of (delimiter, lx2) \<Rightarrow>
                if end_character delimiter \<noteq> 0
                then (True, push_delimiter s delimiter, emit STRING_START lx2)
                else (False, s, lx2)))
      else (False, s, lx))"

subsection \<open>The dispatch on the lookahead, and scan\<close>

text \<open>
  The part of scan after the layout: operators, keywords, the subprocess detector, the
  path prefix and the string start, each tried only when the ones before fell through.
\<close>

definition scan_operators ::
  "Scanner \<Rightarrow> valid_symbols \<Rightarrow> TSLexer \<Rightarrow> (scan_result, unit) flow" where
  "scan_operators s valid lx =
     then_flow (scan_logical s valid lx) (\<lambda>_. scan_keyword s valid lx)"

definition scan_after_operators ::
  "Scanner \<Rightarrow> valid_symbols \<Rightarrow> TSLexer \<Rightarrow> int \<Rightarrow> scan_result" where
  "scan_after_operators s valid lx first_comment =
     (case scan_subprocess s valid lx first_comment of
        Return r \<Rightarrow> r
      | Next lx1 \<Rightarrow>
          (case scan_path_prefix s valid lx1 first_comment of
             Return r \<Rightarrow> r
           | Next _ \<Rightarrow> scan_string_start s valid lx1 first_comment))"

definition scan_dispatch ::
  "Scanner \<Rightarrow> valid_symbols \<Rightarrow> TSLexer \<Rightarrow> int \<Rightarrow> scan_result" where
  "scan_dispatch s valid lx first_comment =
     (case scan_operators s valid lx of
        Return r \<Rightarrow> r
      | Next _ \<Rightarrow> scan_after_operators s valid lx first_comment)"

definition scan :: "Scanner \<Rightarrow> TSLexer \<Rightarrow> valid_symbols \<Rightarrow> scan_result" where
  "scan s lexer valid =
     (case scan_front s lexer valid of
        Return r \<Rightarrow> r
      | Next (lx, first_comment) \<Rightarrow> scan_dispatch s valid lx first_comment)"

section \<open>Serialization\<close>

text \<open>
  The buffer is the list of the bytes written, in order. Its capacity
  \<^verbatim>\<open>TREE_SITTER_SERIALIZATION_BUFFER_SIZE\<close> comes from the host's header and is the
  parameter \<open>cap\<close>. The cast \<^verbatim>\<open>(char)\<close> of a \<^verbatim>\<open>uint16_t\<close> width keeps its low byte.
\<close>

text \<open>
  \<^verbatim>\<open>for (; iter < scanner->indents.size && size < CAP; ++iter) buffer[size++] = (char)indents[iter];\<close>
\<close>

function serialize_indents :: "nat \<Rightarrow> 16 word list \<Rightarrow> nat \<Rightarrow> 8 word list \<Rightarrow> 8 word list" where
  "serialize_indents cap ind iter buffer =
     (if iter < length ind \<and> length buffer < cap
      then serialize_indents cap ind (iter + 1) (buffer @ [ucast (ind ! iter)])
      else buffer)"
  by pat_completeness auto
termination
  by (relation "measure (\<lambda>(cap, ind, iter, buffer). length ind - iter)") auto

declare serialize_indents.simps [simp del]

definition serialize :: "nat \<Rightarrow> Scanner \<Rightarrow> 8 word list" where
  "serialize cap scanner =
     (let delimiter_count = (if length (delimiters scanner) > 255 then 255
                             else length (delimiters scanner));
          buffer = [if inside_f_string scanner then 1 else 0, of_nat delimiter_count]
                   @ map flags (take delimiter_count (delimiters scanner))
      in serialize_indents cap (indents scanner) 1 buffer)"

text \<open>
  \<^verbatim>\<open>deserialize\<close> overwrites the stacks in every call and \<^verbatim>\<open>inside_f_string\<close> only when
  the buffer is not empty, so it takes the scanner it is called on. The buffers it is
  given are those \<^verbatim>\<open>serialize\<close> wrote, which hold their delimiter count and as many
  delimiters. On any other buffer (a single byte, or a count byte larger than the number
  of bytes that follow) the source reads past the end of the buffer; the definition is
  meant for the buffers of \<^verbatim>\<open>serialize\<close> and the empty buffer only, and the properties
  below apply it to no other.
\<close>

definition deserialize :: "Scanner \<Rightarrow> 8 word list \<Rightarrow> Scanner" where
  "deserialize scanner buffer =
     (if length buffer > 0 then
        (let delimiter_count = unat (buffer ! 1)
         in \<lparr>indents = 0 # map ucast (drop (2 + delimiter_count) buffer),
             delimiters = map (\<lambda>b. \<lparr>flags = b\<rparr>) (take delimiter_count (drop 2 buffer)),
             inside_f_string = (buffer ! 0 \<noteq> 0)\<rparr>)
      else scanner\<lparr>indents := [0], delimiters := []\<rparr>)"

definition create :: Scanner where
  "create = deserialize \<lparr>indents = [], delimiters = [], inside_f_string = False\<rparr> []"


section \<open>Notions used to state the properties\<close>

text \<open>The valid-symbol vector in which exactly the listed token kinds are valid.\<close>

definition valid_of :: "TokenType list \<Rightarrow> valid_symbols" where
  "valid_of ts = (\<lambda>t. t \<in> set ts)"

text \<open>
  The input at the lexer spells the keyword \<open>kw\<close> followed by a character that cannot
  continue an identifier (the end of input counts as such a character).
\<close>

definition spells_keyword :: "string \<Rightarrow> TSLexer \<Rightarrow> bool" where
  "spells_keyword kw lx =
     (take (length kw) (remaining lx) = map ch kw \<and>
      \<not> is_identifier_char (case drop (length kw) (remaining lx) of [] \<Rightarrow> 0 | c # _ \<Rightarrow> c))"

text \<open>
  The content loop after \<open>n\<close> full passes through its body: the lexer and
  \<^verbatim>\<open>has_content\<close> with which pass \<open>n + 1\<close> would start, or \<open>None\<close> when the loop has
  ended or returned before.
\<close>

fun content_iter ::
  "nat \<Rightarrow> Scanner \<Rightarrow> Delimiter \<Rightarrow> bool \<Rightarrow> TSLexer \<times> bool \<Rightarrow> (TSLexer \<times> bool) option" where
  "content_iter 0 s d advanced_once c = Some c"
| "content_iter (Suc n) s d advanced_once c =
     (if lookahead (fst c) \<noteq> 0 then
        (case content_step s d advanced_once c of
           Return r \<Rightarrow> None
         | Next c' \<Rightarrow> content_iter n s d advanced_once c')
      else None)"

text \<open>
  An ordinary content character of a string with delimiter \<open>d\<close>: not the end of input, no
  backslash, not the closing quote, no newline and, in a format string, no brace.
\<close>

definition ordinary_content :: "Delimiter \<Rightarrow> int \<Rightarrow> bool" where
  "ordinary_content d c =
     (c \<noteq> 0 \<and> c \<noteq> c_backslash \<and> c \<noteq> end_character d \<and> c \<noteq> c_newline \<and>
      \<not> (is_format d \<and> (c = ch CHR ''{'' \<or> c = ch CHR ''}'')))"

text \<open>
  The scanner states the host can bring about with a serialization buffer of capacity
  \<open>cap\<close>: the state of \<^verbatim>\<open>create\<close>, the state after any call of scan on a reachable
  state (with any lexer and any valid symbols), and the state restored by
  \<^verbatim>\<open>deserialize\<close> from what \<^verbatim>\<open>serialize\<close> wrote for a reachable state.
\<close>

inductive reachable :: "nat \<Rightarrow> Scanner \<Rightarrow> bool" for cap :: nat where
  reachable_create: "reachable cap create"
| reachable_scan: "reachable cap s \<Longrightarrow> scan s lexer valid = (b, s', lx') \<Longrightarrow> reachable cap s'"
| reachable_restore:
    "reachable cap s \<Longrightarrow> reachable cap s0 \<Longrightarrow> reachable cap (deserialize s0 (serialize cap s))"

text \<open>How one call of scan can change the indent stack: not at all, by one push, or by one
  pop of a top that is not 0.\<close>

definition indents_change :: "16 word list \<Rightarrow> 16 word list \<Rightarrow> bool" where
  "indents_change old new =
     (new = old \<or> (\<exists>w. new = old @ [w]) \<or>
      (new = butlast old \<and> old \<noteq> [] \<and> last old \<noteq> 0))"

text \<open>
  The lexer \<open>lx'\<close> comes from \<open>lx\<close> by looking ahead only: the marked end, the start of
  the token and the result symbol are those of \<open>lx\<close>, and the position has not moved
  back.
\<close>

definition peeked :: "TSLexer \<Rightarrow> TSLexer \<Rightarrow> bool" where
  "peeked lx lx' =
     (token_end lx' = token_end lx \<and> token_start lx' = token_start lx \<and>
      result_symbol lx' = result_symbol lx \<and> position lx \<le> position lx')"

text \<open>The lexer a block of the detector leaves behind, however it ends.\<close>

fun flow_lexer :: "('r \<Rightarrow> TSLexer) \<Rightarrow> ('k \<Rightarrow> TSLexer) \<Rightarrow> ('r, 'k) flow \<Rightarrow> TSLexer" where
  "flow_lexer f g (Return r) = f r"
| "flow_lexer f g (Next k) = g k"

section \<open>Evaluation of the model on concrete inputs\<close>

lemmas lexer_eval = lookahead_def eof_def lexer_advance_def advance_def skip_def mark_end_def
  start_lexer_def marked_end_def emit_def

lemmas char_eval = is_identifier_start_def is_identifier_char_def is_digit_def is_whitespace_def
  isalnum_def is_python_keyword_def is_shell_command_def python_keywords_def shell_commands_def

lemmas delimiter_eval = Flags_defs new_delimiter_def is_format_def is_raw_def is_triple_def
  is_bytes_def end_character_def set_format_def set_raw_def set_triple_def set_bytes_def
  set_end_character_def

lemmas loop_eval = skip_whitespace.simps skip_whitespace_count.simps skip_identifier.simps
  skip_identifier_count.simps read_identifier.simps skip_commas.simps rest_of_line.simps
  content_loop.simps skip_comment.simps layout_loop.simps string_prefix_loop.simps

lemmas detect_eval = probe_slash_def probe_dot_def probe_tilde_def probe_dollar_def
  probe_bang_def probe_bracket_def probe_at_command_def probe_at_def detect_probes_def
  is_prefix_letter_def prefix_flag_def is_path_prefix_ident_def is_with_def at_line_end_def
  ident_prefix_check_def ident_help_check_def ident_keyword_check_def ident_macro_check_def
  detect_first_identifier_def detect_comma_line_def initial_line_state_def shell_flag_def
  shell_pipe_def shell_env_arg_def no_ident_def line_step_defs line_step_def wrap_result_def
  line_analysis_def detect_subprocess_line_def Let_def

lemmas scan_eval = error_recovery_mode_def within_brackets_def pop_delimiter_def
  push_delimiter_def scan_escape_def content_raw_backslash_def content_triple_quote_def
  content_step_def scan_string_content_def layout_step_def next_tok_is_string_start_def
  layout_indent_dedent_def layout_emit_def scan_front_def scan_logical_def word_boundary_def
  scan_keyword_def open_quote_with_def open_quote_def check_subprocess_def scan_subprocess_def
  is_quote_def scan_path_prefix_def scan_string_start_def scan_operators_def
  scan_after_operators_def scan_dispatch_def scan_def

lemmas all_eval = lexer_eval char_eval delimiter_eval loop_eval detect_eval scan_eval
  create_def deserialize_def


section \<open>Format-string brace escape (claim C6)\<close>

lemma scan_escape_case:
  assumes "valid ESCAPE_INTERPOLATION" and "\<not> error_recovery_mode valid"
    and "delimiters s \<noteq> []" and "is_format (last (delimiters s))"
    and "lookahead lexer = ch CHR ''{'' \<or> lookahead lexer = ch CHR ''}''"
  shows "scan s lexer valid =
      (if lookahead (advance lexer) = lookahead lexer
       then (True, s, emit ESCAPE_INTERPOLATION (mark_end (advance (advance (mark_end lexer)))))
       else (False, s, advance (mark_end lexer)))"
proof -
  have la: "lookahead (advance (mark_end lexer)) = lookahead (advance lexer)"
    by (cases "remaining lexer") (simp_all add: lexer_eval)
  show ?thesis using assms la
    by (auto simp: scan_def scan_front_def scan_escape_def Let_def)
qed

text \<open>
  C6, as amended. When \<^verbatim>\<open>ESCAPE_INTERPOLATION\<close> is valid, the scanner is not in
  error-recovery mode, the top delimiter is a format string and the lookahead is an
  opening or closing brace: if the next character is the same brace, scan consumes both,
  marks the end after the pair and emits \<^verbatim>\<open>ESCAPE_INTERPOLATION\<close> with the scanner
  state unchanged; if it is not, scan emits no token and leaves the state unchanged.
\<close>

theorem C6_escape_interpolation:
  assumes "valid ESCAPE_INTERPOLATION" and "\<not> error_recovery_mode valid"
    and "delimiters s \<noteq> []" and "is_format (last (delimiters s))"
    and "lookahead lexer = ch CHR ''{'' \<or> lookahead lexer = ch CHR ''}''"
  shows "(lookahead (advance lexer) = lookahead lexer \<longrightarrow>
            fst (scan s lexer valid) \<and> fst (snd (scan s lexer valid)) = s \<and>
            result_symbol (snd (snd (scan s lexer valid))) = ESCAPE_INTERPOLATION \<and>
            position (snd (snd (scan s lexer valid))) = position lexer + 2 \<and>
            marked_end (snd (snd (scan s lexer valid))) = position lexer + 2) \<and>
         (lookahead (advance lexer) \<noteq> lookahead lexer \<longrightarrow>
            \<not> fst (scan s lexer valid) \<and> fst (snd (scan s lexer valid)) = s)"
proof -
  note sc = scan_escape_case [OF assms]
  have "lookahead (advance lexer) = lookahead lexer \<Longrightarrow>
        position (advance (advance (mark_end lexer))) = position lexer + 2"
    using assms(5)
    by (cases "remaining lexer"; cases "tl (remaining lexer)") (auto simp: lexer_eval)
  then show ?thesis
    by (simp add: sc) (simp add: emit_def mark_end_def marked_end_def)
qed

text \<open>
  Witness for C6: inside \<^verbatim>\<open>f"\<close> with the escape and string content valid, the input
  \<^verbatim>\<open>{{x\<close> gives the escape token ending at 2, and \<^verbatim>\<open>{x\<close> gives no token.
\<close>

theorem C6_escape_interpolation_witness:
  "fst (scan \<lparr>indents = [0], delimiters = [\<lparr>flags = 18\<rparr>], inside_f_string = True\<rparr>
        (start_lexer (map ch ''{{x'') 0) (valid_of [ESCAPE_INTERPOLATION, STRING_CONTENT])) \<and>
   marked_end (snd (snd (scan
        \<lparr>indents = [0], delimiters = [\<lparr>flags = 18\<rparr>], inside_f_string = True\<rparr>
        (start_lexer (map ch ''{{x'') 0) (valid_of [ESCAPE_INTERPOLATION, STRING_CONTENT])))) = 2 \<and>
   \<not> fst (scan \<lparr>indents = [0], delimiters = [\<lparr>flags = 18\<rparr>], inside_f_string = True\<rparr>
        (start_lexer (map ch ''{x'') 0) (valid_of [ESCAPE_INTERPOLATION, STRING_CONTENT]))"
  using C6_escape_interpolation [of "valid_of [ESCAPE_INTERPOLATION, STRING_CONTENT]"
      "\<lparr>indents = [0], delimiters = [\<lparr>flags = 18\<rparr>], inside_f_string = True\<rparr>"
      "start_lexer (map ch ''{{x'') 0"]
    C6_escape_interpolation [of "valid_of [ESCAPE_INTERPOLATION, STRING_CONTENT]"
      "\<lparr>indents = [0], delimiters = [\<lparr>flags = 18\<rparr>], inside_f_string = True\<rparr>"
      "start_lexer (map ch ''{x'') 0"]
  by (simp add: valid_of_def error_recovery_mode_def lexer_eval delimiter_eval)

text \<open>
  Counterexample to C6 as stated: with \<^verbatim>\<open>STRING_CONTENT\<close> and \<^verbatim>\<open>INDENT\<close> valid as well
  (error-recovery mode), the escape is valid, the top delimiter is a format string and
  the input is \<^verbatim>\<open>{{x\<close>, yet scan emits no token.
\<close>

theorem C6_counterexample:
  "valid_of [ESCAPE_INTERPOLATION, STRING_CONTENT, INDENT] ESCAPE_INTERPOLATION \<and>
   is_format (last (delimiters
      \<lparr>indents = [0], delimiters = [\<lparr>flags = 18\<rparr>], inside_f_string = True\<rparr>)) \<and>
   lookahead (start_lexer (map ch ''{{x'') 0) = ch CHR ''{'' \<and>
   lookahead (advance (start_lexer (map ch ''{{x'') 0)) = ch CHR ''{'' \<and>
   \<not> fst (scan \<lparr>indents = [0], delimiters = [\<lparr>flags = 18\<rparr>], inside_f_string = True\<rparr>
          (start_lexer (map ch ''{{x'') 0)
          (valid_of [ESCAPE_INTERPOLATION, STRING_CONTENT, INDENT]))"
  by (simp add: all_eval valid_of_def)


section \<open>Error-recovery mode (claim C5)\<close>

lemma result_symbol_emit [simp]: "result_symbol (emit t lx) = t"
  by (simp add: emit_def)

lemma result_symbol_mark_end [simp]: "result_symbol (mark_end lx) = result_symbol lx"
  by (simp add: mark_end_def)

lemma scan_logical_symbol:
  "scan_logical s valid lx = Return (True, s', lx') \<Longrightarrow>
   result_symbol lx' \<in> {LOGICAL_AND, LOGICAL_OR, BACKGROUND_AMP}"
  by (auto simp: scan_logical_def Let_def split: if_splits)

lemma scan_keyword_symbol:
  "scan_keyword s valid lx = Return (True, s', lx') \<Longrightarrow>
   result_symbol lx' \<in> {KEYWORD_AND, KEYWORD_OR}"
  by (auto simp: scan_keyword_def Let_def split: if_splits)

lemma scan_subprocess_symbol:
  "scan_subprocess s valid lx fc = Return (True, s', lx') \<Longrightarrow>
   result_symbol lx' \<in> {BLOCK_MACRO_START, SUBPROCESS_MACRO_START, SUBPROCESS_START,
                         PATH_PREFIX, STRING_START}"
  by (auto simp: scan_subprocess_def Let_def split: if_splits prod.splits)

lemma scan_path_prefix_symbol:
  "scan_path_prefix s valid lx fc = Return (True, s', lx') \<Longrightarrow> result_symbol lx' = PATH_PREFIX"
  by (auto simp: scan_path_prefix_def Let_def split: if_splits)

lemma scan_string_start_symbol:
  "scan_string_start s valid lx fc = (True, s', lx') \<Longrightarrow> result_symbol lx' = STRING_START"
  by (auto simp: scan_string_start_def Let_def split: if_splits prod.splits)

lemma scan_dispatch_symbol:
  assumes "scan_dispatch s valid lx fc = (True, s', lx')"
  shows "result_symbol lx' \<in> {LOGICAL_AND, LOGICAL_OR, BACKGROUND_AMP, KEYWORD_AND, KEYWORD_OR,
           BLOCK_MACRO_START, SUBPROCESS_MACRO_START, SUBPROCESS_START, PATH_PREFIX,
           STRING_START}"
proof (cases "scan_logical s valid lx")
  case (Return r)
  with assms have "scan_logical s valid lx = Return (True, s', lx')"
    by (simp add: scan_dispatch_def scan_operators_def)
  from scan_logical_symbol [OF this] show ?thesis by auto
next
  case l: (Next u)
  show ?thesis
  proof (cases "scan_keyword s valid lx")
    case (Return r)
    with assms l have "scan_keyword s valid lx = Return (True, s', lx')"
      by (simp add: scan_dispatch_def scan_operators_def)
    from scan_keyword_symbol [OF this] show ?thesis by auto
  next
    case k: (Next u')
    show ?thesis
    proof (cases "scan_subprocess s valid lx fc")
      case (Return r)
      with assms l k have "scan_subprocess s valid lx fc = Return (True, s', lx')"
        by (simp add: scan_dispatch_def scan_operators_def scan_after_operators_def)
      from scan_subprocess_symbol [OF this] show ?thesis by auto
    next
      case sp: (Next lx1)
      show ?thesis
      proof (cases "scan_path_prefix s valid lx1 fc")
        case (Return r)
        with assms l k sp have "scan_path_prefix s valid lx1 fc = Return (True, s', lx')"
          by (simp add: scan_dispatch_def scan_operators_def scan_after_operators_def)
        from scan_path_prefix_symbol [OF this] show ?thesis by auto
      next
        case (Next u'')
        with assms l k sp have "scan_string_start s valid lx1 fc = (True, s', lx')"
          by (simp add: scan_dispatch_def scan_operators_def scan_after_operators_def)
        from scan_string_start_symbol [OF this] show ?thesis by auto
      qed
    qed
  qed
qed

lemma layout_emit_symbol_recovery:
  assumes "error_recovery_mode valid" and "layout_emit s valid st = Return (True, s', lx')"
  shows "result_symbol lx' \<in> {INDENT, DEDENT}"
  using assms
  by (cases st) (auto simp: layout_emit_def layout_indent_dedent_def Let_def split: if_splits)

lemma scan_front_symbol_recovery:
  assumes "error_recovery_mode valid" and "scan_front s lexer valid = Return (True, s', lx')"
  shows "result_symbol lx' \<in> {INDENT, DEDENT}"
proof -
  from assms(1) have e: "scan_escape s lexer valid = Next False"
    by (simp add: scan_escape_def)
  from assms(1) have c: "scan_string_content s lexer valid False = Next lexer"
    by (simp add: scan_string_content_def)
  show ?thesis
  proof (cases "layout_loop valid (mark_end lexer, False, 0, - 1)")
    case (Return lx)
    with assms e c show ?thesis by (simp add: scan_front_def)
  next
    case (Next st)
    with assms e c have "layout_emit s valid st = Return (True, s', lx')"
      by (cases "layout_emit s valid st") (simp_all add: scan_front_def)
    from layout_emit_symbol_recovery [OF assms(1) this] show ?thesis .
  qed
qed

text \<open>
  C5, as amended. In error-recovery mode, that is when \<^verbatim>\<open>STRING_CONTENT\<close> and
  \<^verbatim>\<open>INDENT\<close> are both valid, no scan emits \<^verbatim>\<open>NEWLINE\<close> and no scan emits
  \<^verbatim>\<open>ESCAPE_INTERPOLATION\<close>. (\<^verbatim>\<open>INDENT\<close> and \<^verbatim>\<open>DEDENT\<close> are still emitted.)
\<close>

theorem C5_error_recovery:
  assumes "valid STRING_CONTENT" and "valid INDENT"
  shows "\<not> (fst (scan s lexer valid) \<and>
            result_symbol (snd (snd (scan s lexer valid))) \<in> {NEWLINE, ESCAPE_INTERPOLATION})"
proof
  assume a: "fst (scan s lexer valid) \<and>
             result_symbol (snd (snd (scan s lexer valid))) \<in> {NEWLINE, ESCAPE_INTERPOLATION}"
  obtain s' lx' where r: "scan s lexer valid = (True, s', lx')"
    using a by (cases "scan s lexer valid") auto
  from assms have erm: "error_recovery_mode valid" by (simp add: error_recovery_mode_def)
  show False
  proof (cases "scan_front s lexer valid")
    case (Return q)
    with r have "scan_front s lexer valid = Return (True, s', lx')" by (simp add: scan_def)
    from scan_front_symbol_recovery [OF erm this] a r show False by auto
  next
    case (Next p)
    obtain lx fc where p: "p = (lx, fc)" by (cases p) auto
    with Next r have "scan_dispatch s valid lx fc = (True, s', lx')" by (simp add: scan_def)
    from scan_dispatch_symbol [OF this] a r show False by auto
  qed
qed

text \<open>
  Witness for C5: with \<^verbatim>\<open>STRING_CONTENT\<close>, \<^verbatim>\<open>INDENT\<close> and \<^verbatim>\<open>NEWLINE\<close> valid, a
  line end followed by \<^verbatim>\<open>x\<close> at column 0 gives no token.
\<close>

theorem C5_error_recovery_witness:
  "valid_of [STRING_CONTENT, INDENT, NEWLINE] STRING_CONTENT \<and>
   valid_of [STRING_CONTENT, INDENT, NEWLINE] INDENT \<and>
   \<not> fst (scan create (start_lexer (c_newline # map ch ''x'') 0)
            (valid_of [STRING_CONTENT, INDENT, NEWLINE]))"
  using C5_error_recovery [of "valid_of [STRING_CONTENT, INDENT, NEWLINE]" create
      "start_lexer (c_newline # map ch ''x'') 0"]
  by (simp add: all_eval valid_of_def)

text \<open>
  Counterexample to C5 as stated: in error-recovery mode a line end followed by one
  space and \<^verbatim>\<open>x\<close> makes scan emit \<^verbatim>\<open>INDENT\<close>, and with the indent stack \<open>[0, 1]\<close>
  a line end followed by \<^verbatim>\<open>x\<close> at column 0 makes it emit \<^verbatim>\<open>DEDENT\<close>.
\<close>

theorem C5_counterexample:
  "valid_of [STRING_CONTENT, INDENT, DEDENT] STRING_CONTENT \<and>
   valid_of [STRING_CONTENT, INDENT, DEDENT] INDENT \<and>
   fst (scan create (start_lexer (c_newline # map ch '' x'') 0)
          (valid_of [STRING_CONTENT, INDENT, DEDENT])) \<and>
   result_symbol (snd (snd (scan create (start_lexer (c_newline # map ch '' x'') 0)
          (valid_of [STRING_CONTENT, INDENT, DEDENT])))) = INDENT \<and>
   fst (scan \<lparr>indents = [0, 1], delimiters = [], inside_f_string = False\<rparr>
          (start_lexer (c_newline # map ch ''x'') 0)
          (valid_of [STRING_CONTENT, INDENT, DEDENT])) \<and>
   result_symbol (snd (snd (scan \<lparr>indents = [0, 1], delimiters = [], inside_f_string = False\<rparr>
          (start_lexer (c_newline # map ch ''x'') 0)
          (valid_of [STRING_CONTENT, INDENT, DEDENT])))) = DEDENT"
  by (simp add: all_eval valid_of_def)



section \<open>Operator dispatch (claim C10)\<close>

lemma word_boundary_iff: "word_boundary lx = (\<not> is_identifier_char (lookahead lx))"
  by (auto simp: word_boundary_def isalnum_def is_identifier_char_def is_identifier_start_def)

lemma scan_keyword_and_fails:
  assumes "valid KEYWORD_AND" and "lookahead lx = ch CHR ''a''" and "\<not> spells_keyword ''and'' lx"
  shows "\<exists>lx'. scan_keyword s valid lx = Return (False, s, lx')"
proof -
  have "\<not> (lookahead (advance lx) = ch CHR ''n'' \<and> lookahead (advance (advance lx)) = ch CHR ''d''
           \<and> word_boundary (advance (advance (advance lx))))"
    using assms(2,3) unfolding word_boundary_iff
    by (cases "remaining lx"; cases "tl (remaining lx)"; cases "tl (tl (remaining lx))";
        cases "tl (tl (tl (remaining lx)))")
       (auto simp: spells_keyword_def lexer_eval)
  with assms(1,2) show ?thesis
    by (auto simp: scan_keyword_def Let_def)
qed

lemma scan_keyword_or_fails:
  assumes "valid KEYWORD_OR" and "lookahead lx = ch CHR ''o''" and "\<not> spells_keyword ''or'' lx"
  shows "\<exists>lx'. scan_keyword s valid lx = Return (False, s, lx')"
proof -
  have "\<not> (lookahead (advance lx) = ch CHR ''r'' \<and> word_boundary (advance (advance lx)))"
    using assms(2,3) unfolding word_boundary_iff
    by (cases "remaining lx"; cases "tl (remaining lx)"; cases "tl (tl (remaining lx))")
       (auto simp: spells_keyword_def lexer_eval)
  with assms(1,2) show ?thesis
    by (auto simp: scan_keyword_def Let_def)
qed

lemma scan_logical_letter:
  "lookahead lx = ch CHR ''a'' \<or> lookahead lx = ch CHR ''o'' \<Longrightarrow> scan_logical s valid lx = Next ()"
  by (auto simp: scan_logical_def)

lemma scan_logical_amp_fails:
  assumes "valid LOGICAL_AND \<or> valid LOGICAL_OR" and "lookahead lx = ch CHR ''&''"
    and "lookahead (advance lx) \<noteq> ch CHR ''&''" and "\<not> valid BACKGROUND_AMP"
  shows "scan_logical s valid lx = Return (False, s, advance lx)"
  using assms by (auto simp: scan_logical_def Let_def)

text \<open>
  C10, as amended. Whenever the first part of scan (escape, string content, layout) has
  fallen through to the dispatch on the lookahead, and
  \<^item> \<^verbatim>\<open>KEYWORD_AND\<close> is valid and the lookahead is \<^verbatim>\<open>a\<close>, but the input does not spell
    \<^verbatim>\<open>and\<close> followed by a non-identifier character, or
  \<^item> \<^verbatim>\<open>KEYWORD_OR\<close> is valid and the lookahead is \<^verbatim>\<open>o\<close>, but the input does not spell
    \<^verbatim>\<open>or\<close> followed by a non-identifier character, or
  \<^item> \<^verbatim>\<open>LOGICAL_AND\<close> or \<^verbatim>\<open>LOGICAL_OR\<close> is valid, \<^verbatim>\<open>BACKGROUND_AMP\<close> is not, and the
    lookahead is \<^verbatim>\<open>&\<close> not followed by \<^verbatim>\<open>&\<close>,

  the operator stage itself returns from scan with no token, so the result of scan is
  that return with the scanner state unchanged, and the subprocess detector, the path
  prefix and the string start are not reached.
\<close>

theorem C10_operator_short_circuit:
  assumes "scan_front s lexer valid = Next (lx, first_comment)"
    and "(valid KEYWORD_AND \<and> lookahead lx = ch CHR ''a'' \<and> \<not> spells_keyword ''and'' lx) \<or>
         (valid KEYWORD_OR \<and> lookahead lx = ch CHR ''o'' \<and> \<not> spells_keyword ''or'' lx) \<or>
         ((valid LOGICAL_AND \<or> valid LOGICAL_OR) \<and> lookahead lx = ch CHR ''&'' \<and>
          lookahead (advance lx) \<noteq> ch CHR ''&'' \<and> \<not> valid BACKGROUND_AMP)"
  shows "\<exists>lx'. scan_operators s valid lx = Return (False, s, lx') \<and>
               scan s lexer valid = (False, s, lx')"
proof -
  consider
      (a) "valid KEYWORD_AND" "lookahead lx = ch CHR ''a''" "\<not> spells_keyword ''and'' lx"
    | (b) "valid KEYWORD_OR" "lookahead lx = ch CHR ''o''" "\<not> spells_keyword ''or'' lx"
    | (c) "valid LOGICAL_AND \<or> valid LOGICAL_OR" "lookahead lx = ch CHR ''&''"
          "lookahead (advance lx) \<noteq> ch CHR ''&''" "\<not> valid BACKGROUND_AMP"
    using assms(2) by blast
  then have "\<exists>lx'. scan_operators s valid lx = Return (False, s, lx')"
  proof cases
    case a
    from scan_keyword_and_fails [of valid lx s, OF a] scan_logical_letter [of lx s valid] a(2)
    show ?thesis by (auto simp: scan_operators_def)
  next
    case b
    from scan_keyword_or_fails [of valid lx s, OF b] scan_logical_letter [of lx s valid] b(2)
    show ?thesis by (auto simp: scan_operators_def)
  next
    case c
    from scan_logical_amp_fails [of valid lx s, OF c] show ?thesis
      by (simp add: scan_operators_def)
  qed
  then obtain lx' where "scan_operators s valid lx = Return (False, s, lx')" ..
  with assms(1) show ?thesis by (simp add: scan_def scan_dispatch_def)
qed

text \<open>
  Witness for C10: \<^verbatim>\<open>android -x\<close> with \<^verbatim>\<open>KEYWORD_AND\<close> and \<^verbatim>\<open>SUBPROCESS_START\<close> valid
  gives no token although the detector classifies the line as a subprocess;
  \<^verbatim>\<open>or_else\<close> with \<^verbatim>\<open>KEYWORD_OR\<close> valid and \<^verbatim>\<open>& -x\<close> with \<^verbatim>\<open>LOGICAL_AND\<close> valid
  give no token either.
\<close>

theorem C10_operator_short_circuit_witness:
  "scan_front create (start_lexer (map ch ''android -x'') 0) (valid_of [KEYWORD_AND, SUBPROCESS_START])
     = Next (mark_end (start_lexer (map ch ''android -x'') 0), - 1) \<and>
   det_result (detect_subprocess_line (mark_end (start_lexer (map ch ''android -x'') 0)) new_delimiter)
     = DETECT_SUBPROCESS \<and>
   \<not> fst (scan create (start_lexer (map ch ''android -x'') 0) (valid_of [KEYWORD_AND, SUBPROCESS_START])) \<and>
   \<not> fst (scan create (start_lexer (map ch ''or_else'') 0) (valid_of [KEYWORD_OR, STRING_START])) \<and>
   \<not> fst (scan create (start_lexer (map ch ''& -x'') 0) (valid_of [LOGICAL_AND, SUBPROCESS_START]))"
proof -
  have f1: "scan_front create (start_lexer (map ch ''android -x'') 0) (valid_of [KEYWORD_AND, SUBPROCESS_START])
     = Next (mark_end (start_lexer (map ch ''android -x'') 0), - 1)"
    by (simp add: all_eval valid_of_def)
  have f2: "scan_front create (start_lexer (map ch ''or_else'') 0) (valid_of [KEYWORD_OR, STRING_START])
     = Next (mark_end (start_lexer (map ch ''or_else'') 0), - 1)"
    by (simp add: all_eval valid_of_def)
  have f3: "scan_front create (start_lexer (map ch ''& -x'') 0) (valid_of [LOGICAL_AND, SUBPROCESS_START])
     = Next (mark_end (start_lexer (map ch ''& -x'') 0), - 1)"
    by (simp add: all_eval valid_of_def)
  have d: "det_result (detect_subprocess_line (mark_end (start_lexer (map ch ''android -x'') 0)) new_delimiter)
     = DETECT_SUBPROCESS"
    by (simp add: all_eval)
  have h1: "valid_of [KEYWORD_AND, SUBPROCESS_START] KEYWORD_AND \<and>
     lookahead (mark_end (start_lexer (map ch ''android -x'') 0)) = ch CHR ''a'' \<and>
     \<not> spells_keyword ''and'' (mark_end (start_lexer (map ch ''android -x'') 0))"
    by (simp add: valid_of_def spells_keyword_def lexer_eval char_eval)
  have h2: "valid_of [KEYWORD_OR, STRING_START] KEYWORD_OR \<and>
     lookahead (mark_end (start_lexer (map ch ''or_else'') 0)) = ch CHR ''o'' \<and>
     \<not> spells_keyword ''or'' (mark_end (start_lexer (map ch ''or_else'') 0))"
    by (simp add: valid_of_def spells_keyword_def lexer_eval char_eval)
  have h3: "(valid_of [LOGICAL_AND, SUBPROCESS_START] LOGICAL_AND \<or>
             valid_of [LOGICAL_AND, SUBPROCESS_START] LOGICAL_OR) \<and>
     lookahead (mark_end (start_lexer (map ch ''& -x'') 0)) = ch CHR ''&'' \<and>
     lookahead (advance (mark_end (start_lexer (map ch ''& -x'') 0))) \<noteq> ch CHR ''&'' \<and>
     \<not> valid_of [LOGICAL_AND, SUBPROCESS_START] BACKGROUND_AMP"
    by (simp add: valid_of_def lexer_eval)
  from C10_operator_short_circuit [OF f1] h1
  have r1: "\<not> fst (scan create (start_lexer (map ch ''android -x'') 0) (valid_of [KEYWORD_AND, SUBPROCESS_START]))"
    by auto
  from C10_operator_short_circuit [OF f2] h2
  have r2: "\<not> fst (scan create (start_lexer (map ch ''or_else'') 0) (valid_of [KEYWORD_OR, STRING_START]))"
    by auto
  from C10_operator_short_circuit [OF f3] h3
  have r3: "\<not> fst (scan create (start_lexer (map ch ''& -x'') 0) (valid_of [LOGICAL_AND, SUBPROCESS_START]))"
    by auto
  from f1 d r1 r2 r3 show ?thesis by simp
qed

text \<open>
  Counterexample to C10 as stated: with \<^verbatim>\<open>KEYWORD_AND\<close> and \<^verbatim>\<open>SUBPROCESS_START\<close> valid
  and none of \<^verbatim>\<open>LOGICAL_AND\<close>, \<^verbatim>\<open>LOGICAL_OR\<close>, \<^verbatim>\<open>BACKGROUND_AMP\<close>, the lookahead
  \<^verbatim>\<open>&\<close> of \<^verbatim>\<open>& -x\<close> is not followed by \<^verbatim>\<open>&\<close>, yet the detector runs and scan emits
  \<^verbatim>\<open>SUBPROCESS_START\<close>.
\<close>

theorem C10_counterexample:
  "scan_front create (start_lexer (map ch ''& -x'') 0) (valid_of [KEYWORD_AND, SUBPROCESS_START])
     = Next (mark_end (start_lexer (map ch ''& -x'') 0), - 1) \<and>
   lookahead (mark_end (start_lexer (map ch ''& -x'') 0)) = ch CHR ''&'' \<and>
   lookahead (advance (mark_end (start_lexer (map ch ''& -x'') 0))) \<noteq> ch CHR ''&'' \<and>
   \<not> valid_of [KEYWORD_AND, SUBPROCESS_START] BACKGROUND_AMP \<and>
   fst (scan create (start_lexer (map ch ''& -x'') 0) (valid_of [KEYWORD_AND, SUBPROCESS_START])) \<and>
   result_symbol (snd (snd (scan create (start_lexer (map ch ''& -x'') 0)
      (valid_of [KEYWORD_AND, SUBPROCESS_START])))) = SUBPROCESS_START"
  by (simp add: all_eval valid_of_def)



section \<open>Unterminated string on a line (claim C8)\<close>

lemma content_loop_iter:
  "content_iter n s d a c = Some c' \<Longrightarrow> content_loop s d a c = content_loop s d a c'"
proof (induction n arbitrary: c)
  case 0
  then show ?case by simp
next
  case (Suc n)
  from Suc.prems obtain c1 where nz: "lookahead (fst c) \<noteq> 0"
    and st: "content_step s d a c = Next c1" and it: "content_iter n s d a c1 = Some c'"
    by (auto split: if_splits flow.splits)
  from nz st have "content_loop s d a c = content_loop s d a c1"
    by (subst content_loop.simps) simp
  with Suc.IH [OF it] show ?case by simp
qed

lemma end_character_not_newline: "end_character d \<noteq> c_newline"
  by (simp add: end_character_def)

lemma content_loop_newline:
  assumes "lookahead lx = c_newline" and "\<not> is_triple d"
  shows "content_loop s d False (lx, True) = Return (False, s, lx)"
proof -
  from assms have "content_step s d False (lx, True) = Return (False, s, lx)"
    using end_character_not_newline [of d] by (auto simp: content_step_def)
  with assms(1) show ?thesis by (subst content_loop.simps) simp
qed

lemma remaining_advance: "remaining (advance lx) = tl (remaining lx)"
  by (simp add: advance_def lexer_advance_def split: list.splits)

lemma remaining_advance_funpow:
  "remaining lx = cs @ r \<Longrightarrow> remaining ((advance ^^ length cs) lx) = r"
proof (induction cs arbitrary: lx)
  case Nil
  then show ?case by simp
next
  case (Cons c cs)
  then have "remaining (advance lx) = cs @ r" by (simp add: remaining_advance)
  from Cons.IH [OF this] show ?case by (simp add: funpow_swap1)
qed

lemma content_step_ordinary:
  assumes "ordinary_content d c" and "remaining lx = c # r"
  shows "content_step s d False (lx, hc) = Next (advance lx, True)"
  using assms by (auto simp: content_step_def ordinary_content_def lookahead_def)

lemma content_iter_ordinary:
  "list_all (ordinary_content d) cs \<Longrightarrow> remaining lx = cs @ r \<Longrightarrow>
   content_iter (length cs) s d False (lx, hc)
     = Some ((advance ^^ length cs) lx, hc \<or> cs \<noteq> [])"
proof (induction cs arbitrary: lx hc)
  case Nil
  then show ?case by simp
next
  case (Cons c cs)
  from Cons.prems have o: "ordinary_content d c" and r: "remaining lx = c # (cs @ r)"
    and a: "list_all (ordinary_content d) cs" by simp_all
  from r have r': "remaining (advance lx) = cs @ r" by (simp add: remaining_advance)
  from o r have nz: "lookahead lx \<noteq> 0" by (simp add: lookahead_def ordinary_content_def)
  have "content_iter (Suc (length cs)) s d False (lx, hc)
        = content_iter (length cs) s d False (advance lx, True)"
    using nz content_step_ordinary [OF o r] by simp
  also have "\<dots> = Some ((advance ^^ length cs) (advance lx), True)"
    using Cons.IH [OF a r', of True] by simp
  finally show ?case by (simp add: funpow_swap1)
qed

text \<open>
  C8, as amended. While scan is scanning the content of a string that is not
  triple-quoted (string content is valid, a delimiter is open, no error-recovery mode): a
  newline that the content loop, started at the scan position without content, comes to
  as the current character of a pass, with content accumulated, makes scan return with no
  token, the scanner state unchanged and the lexer at that newline. This is so in
  particular for the newline after a non-empty run of ordinary content characters. In a
  raw string, the pass that starts at a backslash directly followed by a newline steps
  over both and goes on, whether or not content was accumulated.
\<close>

theorem C8_newline_aborts:
  assumes "valid STRING_CONTENT" and "\<not> error_recovery_mode valid" and "delimiters s \<noteq> []"
    and "\<not> is_triple (last (delimiters s))"
  shows "(content_iter n s (last (delimiters s)) False (lexer, False) = Some (lx, True) \<and>
          lookahead lx = c_newline
            \<longrightarrow> scan s lexer valid = (False, s, lx)) \<and>
         (content \<noteq> [] \<and> list_all (ordinary_content (last (delimiters s))) content \<and>
          remaining lexer = content @ c_newline # rest
            \<longrightarrow> scan s lexer valid = (False, s, (advance ^^ length content) lexer)) \<and>
         (is_raw (last (delimiters s)) \<and> remaining lxr = c_backslash # c_newline # rest_r
            \<longrightarrow> content_step s (last (delimiters s)) False (lxr, has_content)
                 = Next (advance (advance lxr), has_content))"
proof -
  let ?d = "last (delimiters s)"
  have main: "scan s lexer valid = (False, s, lx')"
    if i: "content_iter m s ?d False (lexer, False) = Some (lx', True)"
      and l: "lookahead lx' = c_newline" for m lx'
  proof -
    have "\<not> ((lookahead lexer = ch CHR ''{'' \<or> lookahead lexer = ch CHR ''}'') \<and> is_format ?d)"
    proof (cases m)
      case 0
      with i show ?thesis by simp
    next
      case (Suc k)
      with i obtain c1 where "content_step s ?d False (lexer, False) = Next c1"
        by (auto split: if_splits flow.splits)
      then show ?thesis by (auto simp: content_step_def split: if_splits)
    qed
    then have e: "scan_escape s lexer valid = Next False"
      by (auto simp: scan_escape_def)
    have "content_loop s ?d False (lexer, False) = Return (False, s, lx')"
      using content_loop_iter [OF i] content_loop_newline [OF l assms(4)] by simp
    with assms(1-3) have "scan_string_content s lexer valid False = Return (False, s, lx')"
      by (simp add: scan_string_content_def)
    with e show ?thesis by (simp add: scan_def scan_front_def)
  qed
  have second: "scan s lexer valid = (False, s, (advance ^^ length content) lexer)"
    if ne: "content \<noteq> []" and o: "list_all (ordinary_content ?d) content"
      and r: "remaining lexer = content @ c_newline # rest"
  proof -
    from content_iter_ordinary [OF o r, of s False] ne
    have i: "content_iter (length content) s ?d False (lexer, False)
             = Some ((advance ^^ length content) lexer, True)" by simp
    from remaining_advance_funpow [OF r]
    have l: "lookahead ((advance ^^ length content) lexer) = c_newline"
      by (simp add: lookahead_def)
    from main [OF i l] show ?thesis .
  qed
  have third: "content_step s ?d False (lxr, has_content)
               = Next (advance (advance lxr), has_content)"
    if w: "is_raw ?d" and r: "remaining lxr = c_backslash # c_newline # rest_r"
  proof -
    from r have l: "lookahead lxr = c_backslash" by (simp add: lookahead_def)
    from r have l1: "lookahead (advance lxr) = c_newline"
      by (simp add: lookahead_def remaining_advance)
    have "content_raw_backslash ?d lxr = advance (advance lxr)"
      using l1 end_character_not_newline [of ?d] by (simp add: content_raw_backslash_def)
    with l w show ?thesis by (simp add: content_step_def)
  qed
  from main second third show ?thesis by blast
qed

text \<open>
  Witness for C8: inside a plain double-quoted string, the input \<^verbatim>\<open>ab\<close>, a newline and
  \<^verbatim>\<open>c"\<close>: scan gives no token and stops at the newline. Inside a raw double-quoted string,
  the input \<^verbatim>\<open>a\bc\<close> and a newline: after four passes (the backslash is one of them)
  the loop is at the newline with content, and scan gives no token; and a pass that
  starts at column 2 on a backslash, a newline and \<^verbatim>\<open>cd"\<close> goes on at column 4.
\<close>

theorem C8_newline_aborts_witness:
  "scan \<lparr>indents = [0], delimiters = [\<lparr>flags = 2\<rparr>], inside_f_string = False\<rparr>
      (start_lexer (map ch ''ab'' @ [c_newline] @ map ch ''c'' @ [c_dquote]) 0)
      (valid_of [STRING_CONTENT])
     = (False, \<lparr>indents = [0], delimiters = [\<lparr>flags = 2\<rparr>], inside_f_string = False\<rparr>,
        \<lparr>remaining = [c_newline] @ map ch ''c'' @ [c_dquote], position = 2, token_start = 0,
         token_end = None, result_symbol = NEWLINE\<rparr>) \<and>
   content_iter (Suc (Suc (Suc (Suc 0)))) \<lparr>indents = [0], delimiters = [\<lparr>flags = 10\<rparr>], inside_f_string = False\<rparr>
      \<lparr>flags = 10\<rparr> False
      (start_lexer (map ch ''a'' @ [c_backslash] @ map ch ''bc'' @ [c_newline]) 0, False)
     = Some (\<lparr>remaining = [c_newline], position = 4, token_start = 0, token_end = None,
              result_symbol = NEWLINE\<rparr>, True) \<and>
   scan \<lparr>indents = [0], delimiters = [\<lparr>flags = 10\<rparr>], inside_f_string = False\<rparr>
      (start_lexer (map ch ''a'' @ [c_backslash] @ map ch ''bc'' @ [c_newline]) 0)
      (valid_of [STRING_CONTENT])
     = (False, \<lparr>indents = [0], delimiters = [\<lparr>flags = 10\<rparr>], inside_f_string = False\<rparr>,
        \<lparr>remaining = [c_newline], position = 4, token_start = 0, token_end = None,
         result_symbol = NEWLINE\<rparr>) \<and>
   content_step \<lparr>indents = [0], delimiters = [\<lparr>flags = 10\<rparr>], inside_f_string = False\<rparr>
      \<lparr>flags = 10\<rparr> False
      (start_lexer ([c_backslash, c_newline] @ map ch ''cd'' @ [c_dquote]) 2, True)
     = Next (\<lparr>remaining = map ch ''cd'' @ [c_dquote], position = 4, token_start = 2,
              token_end = None, result_symbol = NEWLINE\<rparr>, True)"
proof -
  let ?V = "valid_of [STRING_CONTENT]"
  let ?s = "\<lparr>indents = [0], delimiters = [\<lparr>flags = 2\<rparr>], inside_f_string = False\<rparr>"
  let ?L = "start_lexer (map ch ''ab'' @ [c_newline] @ map ch ''c'' @ [c_dquote]) 0"
  let ?r = "\<lparr>indents = [0], delimiters = [\<lparr>flags = 10\<rparr>], inside_f_string = False\<rparr>"
  let ?R = "start_lexer (map ch ''a'' @ [c_backslash] @ map ch ''bc'' @ [c_newline]) 0"
  let ?R' = "\<lparr>remaining = [c_newline], position = 4, token_start = 0, token_end = None,
              result_symbol = NEWLINE\<rparr>"
  have hs: "?V STRING_CONTENT \<and> \<not> error_recovery_mode ?V \<and> delimiters ?s \<noteq> []
            \<and> \<not> is_triple (last (delimiters ?s))"
    by (simp add: valid_of_def error_recovery_mode_def delimiter_eval)
  have hr: "?V STRING_CONTENT \<and> \<not> error_recovery_mode ?V \<and> delimiters ?r \<noteq> []
            \<and> \<not> is_triple (last (delimiters ?r))"
    by (simp add: valid_of_def error_recovery_mode_def delimiter_eval)
  have o: "map ch ''ab'' \<noteq> [] \<and> list_all (ordinary_content (last (delimiters ?s))) (map ch ''ab'')
           \<and> remaining ?L = map ch ''ab'' @ c_newline # (map ch ''c'' @ [c_dquote])"
    by (simp add: ordinary_content_def delimiter_eval start_lexer_def)
  have a: "(advance ^^ length (map ch ''ab'')) ?L
           = \<lparr>remaining = [c_newline] @ map ch ''c'' @ [c_dquote], position = 2, token_start = 0,
              token_end = None, result_symbol = NEWLINE\<rparr>"
    by (simp add: lexer_eval numeral_2_eq_2)
  have i: "content_iter (Suc (Suc (Suc (Suc 0)))) ?r (last (delimiters ?r)) False (?R, False) = Some (?R', True)"
    by (simp add: content_step_def content_raw_backslash_def lexer_eval delimiter_eval)
  have l: "lookahead ?R' = c_newline" by (simp add: lexer_eval)
  let ?B = "start_lexer ([c_backslash, c_newline] @ map ch ''cd'' @ [c_dquote]) 2"
  have w: "is_raw (last (delimiters ?r))
           \<and> remaining ?B = c_backslash # c_newline # (map ch ''cd'' @ [c_dquote])"
    by (simp add: delimiter_eval start_lexer_def)
  have b: "advance (advance ?B)
           = \<lparr>remaining = map ch ''cd'' @ [c_dquote], position = 4, token_start = 2,
              token_end = None, result_symbol = NEWLINE\<rparr>"
    by (simp add: lexer_eval)
  from C8_newline_aborts [of ?V ?s 0 ?L ?L "map ch ''ab''" "map ch ''c'' @ [c_dquote]"] hs o a
  have 1: "scan ?s ?L ?V
     = (False, ?s, \<lparr>remaining = [c_newline] @ map ch ''c'' @ [c_dquote], position = 2,
                     token_start = 0, token_end = None, result_symbol = NEWLINE\<rparr>)"
    by simp
  from C8_newline_aborts [of ?V ?r "Suc (Suc (Suc (Suc 0)))" ?R ?R' "[]" "[]"] hr i l
  have 2: "scan ?r ?R ?V = (False, ?r, ?R')" by simp
  from C8_newline_aborts [of ?V ?r 0 ?R ?R "[]" "[]" ?B "map ch ''cd'' @ [c_dquote]" True] hr w b
  have 3: "content_step ?r \<lparr>flags = 10\<rparr> False (?B, True)
     = Next (\<lparr>remaining = map ch ''cd'' @ [c_dquote], position = 4, token_start = 2,
              token_end = None, result_symbol = NEWLINE\<rparr>, True)"
    by simp
  from 1 2 3 i show ?thesis by simp
qed

text \<open>
  Counterexample to C8 as stated. Inside a raw double-quoted string that is not
  triple-quoted, on the input \<^verbatim>\<open>ab\<close>, a backslash, a newline and \<^verbatim>\<open>cd"\<close>, the content scan
  steps over the newline with the backslash (``step over newlines'') although content was
  accumulated, and scan emits \<^verbatim>\<open>STRING_CONTENT\<close> for the columns 0 to 6, across the line
  end. Inside a bytes string, on \<^verbatim>\<open>ab\N\<close>, a newline and \<^verbatim>\<open>cd"\<close>, the character after
  \<^verbatim>\<open>\N\<close> is consumed unexamined, here the newline, and scan emits \<^verbatim>\<open>STRING_CONTENT\<close> for
  the columns 0 to 7.
\<close>

theorem C8_counterexample:
  "\<not> is_triple \<lparr>flags = 10\<rparr> \<and> is_raw \<lparr>flags = 10\<rparr> \<and>
   scan \<lparr>indents = [0], delimiters = [\<lparr>flags = 10\<rparr>], inside_f_string = False\<rparr>
     (start_lexer (map ch ''ab'' @ [c_backslash, c_newline] @ map ch ''cd'' @ [c_dquote]) 0)
     (valid_of [STRING_CONTENT])
   = (True, \<lparr>indents = [0], delimiters = [\<lparr>flags = 10\<rparr>], inside_f_string = False\<rparr>,
      \<lparr>remaining = [c_dquote], position = 6, token_start = 0, token_end = Some 6,
       result_symbol = STRING_CONTENT\<rparr>) \<and>
   \<not> is_triple \<lparr>flags = 66\<rparr> \<and> is_bytes \<lparr>flags = 66\<rparr> \<and> \<not> is_raw \<lparr>flags = 66\<rparr> \<and>
   scan \<lparr>indents = [0], delimiters = [\<lparr>flags = 66\<rparr>], inside_f_string = False\<rparr>
     (start_lexer (map ch ''ab'' @ [c_backslash] @ map ch ''N'' @ [c_newline] @ map ch ''cd''
                   @ [c_dquote]) 0)
     (valid_of [STRING_CONTENT])
   = (True, \<lparr>indents = [0], delimiters = [\<lparr>flags = 66\<rparr>], inside_f_string = False\<rparr>,
      \<lparr>remaining = [c_dquote], position = 7, token_start = 0, token_end = Some 7,
       result_symbol = STRING_CONTENT\<rparr>)"
  by (simp add: all_eval valid_of_def)


section \<open>The decision of the subprocess detector (claim C1)\<close>







section \<open>The serialized form (claim C9)\<close>

lemma serialize_indents_closed:
  "serialize_indents cap ind iter buffer
     = buffer @ map ucast (take (cap - length buffer) (drop iter ind))"
proof (induction cap ind iter buffer rule: serialize_indents.induct)
  case (1 cap ind iter buffer)
  show ?case
  proof (cases "iter < length ind \<and> length buffer < cap")
    case True
    then have d: "drop iter ind = ind ! iter # drop (iter + 1) ind"
      by (simp add: Cons_nth_drop_Suc)
    from True obtain m where m: "cap - length buffer = Suc m"
      by (cases "cap - length buffer") auto
    then have m': "cap - (length buffer + 1) = m" by simp
    from True 1 have "serialize_indents cap ind iter buffer
        = (buffer @ [ucast (ind ! iter)])
          @ map ucast (take (cap - length (buffer @ [ucast (ind ! iter) :: 8 word])) (drop (iter + 1) ind))"
      by (subst serialize_indents.simps) simp
    then show ?thesis using d m m' by simp
  next
    case False
    then show ?thesis by (subst serialize_indents.simps) auto
  qed
qed

lemma serialize_closed:
  "serialize cap s
     = [if inside_f_string s then 1 else 0, of_nat (min 255 (length (delimiters s)))]
       @ map flags (take 255 (delimiters s))
       @ map ucast (take (cap - (2 + min 255 (length (delimiters s)))) (tl (indents s)))"
proof -
  have "(if length (delimiters s) > 255 then 255 else length (delimiters s))
        = min 255 (length (delimiters s))" by simp
  moreover have "take (min 255 (length (delimiters s))) (delimiters s) = take 255 (delimiters s)"
    by (simp add: min_def)
  ultimately show ?thesis
    by (simp add: serialize_def Let_def serialize_indents_closed drop_Suc del: min_less_iff_conj)
qed

lemma unat_of_nat_count: "unat (of_nat (min 255 n) :: 8 word) = min 255 n"
  by (simp add: unat_of_nat min_def)

lemma delimiter_rebuild: "map (\<lambda>d. \<lparr>flags = flags d\<rparr>) ds = ds"
  by (induction ds) auto

lemma deserialize_serialize:
  "deserialize s0 (serialize cap s)
     = \<lparr>indents = 0 # map (\<lambda>w. ucast (ucast w :: 8 word))
                       (take (cap - (2 + min 255 (length (delimiters s)))) (tl (indents s))),
        delimiters = take 255 (delimiters s),
        inside_f_string = inside_f_string s\<rparr>"
proof -
  let ?dc = "min 255 (length (delimiters s))"
  let ?b = "serialize cap s"
  have len: "length (map flags (take 255 (delimiters s))) = ?dc" by (simp add: min_def)
  have b1: "?b ! 1 = of_nat ?dc" by (simp add: serialize_closed)
  have b0: "(?b ! 0 \<noteq> 0) = inside_f_string s" by (simp add: serialize_closed)
  have d2: "drop 2 ?b = map flags (take 255 (delimiters s))
       @ map ucast (take (cap - (2 + ?dc)) (tl (indents s)))"
    by (simp add: serialize_closed)
  have t: "take ?dc (drop 2 ?b) = map flags (take 255 (delimiters s))"
    unfolding d2 using len by simp
  have "drop (2 + ?dc) ?b = drop ?dc (drop 2 ?b)" by (simp add: add.commute)
  also have "\<dots> = map ucast (take (cap - (2 + ?dc)) (tl (indents s)))"
    unfolding d2 using len by simp
  finally have d: "drop (2 + ?dc) ?b = map ucast (take (cap - (2 + ?dc)) (tl (indents s)))" .
  have ne: "length ?b > 0" by (simp add: serialize_closed)
  have "deserialize s0 ?b
      = \<lparr>indents = 0 # map ucast (drop (2 + unat (?b ! 1)) ?b),
         delimiters = map (\<lambda>b. \<lparr>flags = b\<rparr>) (take (unat (?b ! 1)) (drop 2 ?b)),
         inside_f_string = (?b ! 0 \<noteq> 0)\<rparr>"
    using ne by (simp only: deserialize_def Let_def if_True)
  also have "\<dots> = \<lparr>indents = 0 # map ucast (map (ucast :: 16 word \<Rightarrow> 8 word)
                                 (take (cap - (2 + ?dc)) (tl (indents s)))),
         delimiters = map (\<lambda>b. \<lparr>flags = b\<rparr>) (map flags (take 255 (delimiters s))),
         inside_f_string = inside_f_string s\<rparr>"
    by (simp only: b1 unat_of_nat_count d t b0)
  finally show ?thesis by (simp add: o_def delimiter_rebuild)
qed

lemma low_byte_restored: "(ucast (ucast (w :: 16 word) :: 8 word) :: 16 word) = of_nat (unat w mod 256)"
proof -
  have "unat w mod 256 < 65536"
    using mod_less_divisor [of 256 "unat w"] by linarith
  then show ?thesis
    by (simp add: word_unat_eq_iff unsigned_ucast_eq unat_of_nat take_bit_eq_mod unat_mod)
qed

lemma small_width_byte:
  assumes "unat (w :: 16 word) \<le> 255"
  shows "(ucast w :: 8 word) = of_nat (min 255 (unat w))"
    and "(ucast (ucast w :: 8 word) :: 16 word) = w"
proof -
  from assms have m: "min 255 (unat w) = unat w" by simp
  show "(ucast w :: 8 word) = of_nat (min 255 (unat w))" unfolding m by simp
  from assms have "unat w mod 256 = unat w" by simp
  then show "(ucast (ucast w :: 8 word) :: 16 word) = w"
    by (simp only: low_byte_restored) simp
qed

text \<open>
  With every indent width at most 255 the serialized form is the one with clamped bytes:
  the \<^verbatim>\<open>inside_f_string\<close> byte, the delimiter-stack size clamped to 255, one byte per
  delimiter for the first 255 delimiters, then the indent-stack entries from index 1 on,
  one byte per width (the clamp leaves such a width as it is), stopping at the capacity of
  the buffer; \<^verbatim>\<open>deserialize\<close> reads it back and starts the indent stack with a 0.
\<close>

lemma serialization_format_small_widths:
  assumes "\<forall>w \<in> set (indents s). unat w \<le> 255"
  shows "serialize cap s
     = [if inside_f_string s then 1 else 0, of_nat (min 255 (length (delimiters s)))]
       @ map flags (take 255 (delimiters s))
       @ map (\<lambda>w. of_nat (min 255 (unat w)))
           (take (cap - (2 + min 255 (length (delimiters s)))) (tl (indents s)))"
    and "deserialize s0 (serialize cap s)
     = \<lparr>indents = 0 # take (cap - (2 + min 255 (length (delimiters s)))) (tl (indents s)),
        delimiters = take 255 (delimiters s),
        inside_f_string = inside_f_string s\<rparr>"
proof -
  let ?ws = "take (cap - (2 + min 255 (length (delimiters s)))) (tl (indents s))"
  have sm: "unat w \<le> 255" if "w \<in> set ?ws" for w
  proof -
    from that have "w \<in> set (tl (indents s))" by (rule in_set_takeD)
    then have "w \<in> set (indents s)" by (cases "indents s") simp_all
    with assms show ?thesis by blast
  qed
  have m1: "map (ucast :: 16 word \<Rightarrow> 8 word) ?ws = map (\<lambda>w. of_nat (min 255 (unat w))) ?ws"
    by (rule map_cong [OF refl]) (rule small_width_byte(1) [OF sm])
  have m2: "map (\<lambda>w :: 16 word. ucast (ucast w :: 8 word) :: 16 word) ?ws = ?ws"
    by (rule map_idI) (rule small_width_byte(2) [OF sm])
  show "serialize cap s
     = [if inside_f_string s then 1 else 0, of_nat (min 255 (length (delimiters s)))]
       @ map flags (take 255 (delimiters s))
       @ map (\<lambda>w. of_nat (min 255 (unat w))) ?ws"
    by (simp only: serialize_closed m1)
  show "deserialize s0 (serialize cap s)
     = \<lparr>indents = 0 # ?ws, delimiters = take 255 (delimiters s),
        inside_f_string = inside_f_string s\<rparr>"
    by (simp only: deserialize_serialize m2)
qed

text \<open>
  C9, at a width above 255. The byte of a width clamped to 255 would be 255 for the width
  256. For the indent stack \<open>[0, 256]\<close> \<^verbatim>\<open>serialize\<close> writes the bytes 0, 0, 0: the width
  is stored through a \<^verbatim>\<open>(char)\<close> cast that keeps its low byte, with no clamp before it
  (the delimiter count next to it is clamped). \<^verbatim>\<open>deserialize\<close> restores the indent stack
  \<open>[0, 0]\<close>.
\<close>

theorem C9_width_byte_wraps:
  "unat (indents \<lparr>indents = [0, 256], delimiters = [], inside_f_string = False\<rparr> ! 1) = 256 \<and>
   (of_nat (min 255 (unat (indents \<lparr>indents = [0, 256], delimiters = [],
                                    inside_f_string = False\<rparr> ! 1))) :: 8 word) = 255 \<and>
   serialize 1024 \<lparr>indents = [0, 256], delimiters = [], inside_f_string = False\<rparr> = [0, 0, 0] \<and>
   deserialize create (serialize 1024 \<lparr>indents = [0, 256], delimiters = [],
                                        inside_f_string = False\<rparr>)
     = \<lparr>indents = [0, 0], delimiters = [], inside_f_string = False\<rparr>"
  by (simp add: serialize_closed deserialize_def)



section \<open>The layout loop over a run of spaces\<close>

lemma layout_loop_spaces:
  "layout_loop valid
     (\<lparr>remaining = replicate n c_space @ rest, position = p, token_start = ts,
       token_end = te, result_symbol = r\<rparr>, f, il, fc)
   = layout_loop valid
     (\<lparr>remaining = rest, position = p + n, token_start = (if n = 0 then ts else p + n),
       token_end = te, result_symbol = r\<rparr>, f, il + of_nat n, fc)"
proof (induction n arbitrary: p ts il)
  case 0
  show ?case by simp
next
  case (Suc n)
  have "layout_loop valid
     (\<lparr>remaining = replicate (Suc n) c_space @ rest, position = p, token_start = ts,
       token_end = te, result_symbol = r\<rparr>, f, il, fc)
    = layout_loop valid
     (\<lparr>remaining = replicate n c_space @ rest, position = p + 1, token_start = p + 1,
       token_end = te, result_symbol = r\<rparr>, f, il + 1, fc)"
    by (subst layout_loop.simps) (simp add: layout_step_def lexer_eval)
  also have "\<dots> = layout_loop valid
     (\<lparr>remaining = rest, position = p + 1 + n,
       token_start = (if n = 0 then p + 1 else p + 1 + n),
       token_end = te, result_symbol = r\<rparr>, f, il + 1 + of_nat n, fc)"
    by (rule Suc.IH)
  finally show ?case by (simp add: add.commute add.left_commute)
qed

lemma scan_indent_spaces:
  assumes "(of_nat n :: 32 word) \<noteq> 0"
  shows "scan create (start_lexer (c_newline # replicate n c_space @ [ch CHR ''x'']) 0)
           (valid_of [INDENT])
         = (True,
            \<lparr>indents = [0, ucast (of_nat n :: 32 word)], delimiters = [], inside_f_string = False\<rparr>,
            \<lparr>remaining = [ch CHR ''x''], position = n + 1, token_start = n + 1,
             token_end = Some 0, result_symbol = INDENT\<rparr>)"
proof -
  let ?V = "valid_of [INDENT]"
  let ?L = "start_lexer (c_newline # replicate n c_space @ [ch CHR ''x'']) 0"
  have n: "n \<noteq> 0"
  proof
    assume "n = 0"
    with assms show False by simp
  qed
  have e: "scan_escape create ?L ?V = Next False"
    by (simp add: scan_escape_def valid_of_def)
  have c: "scan_string_content create ?L ?V False = Next ?L"
    by (simp add: scan_string_content_def valid_of_def)
  have "layout_loop ?V (mark_end ?L, False, 0, - 1)
      = layout_loop ?V
         (\<lparr>remaining = replicate n c_space @ [ch CHR ''x''], position = 1, token_start = 1,
           token_end = Some 0, result_symbol = NEWLINE\<rparr>, True, 0, - 1)"
    by (subst layout_loop.simps) (simp add: layout_step_def lexer_eval)
  also have "\<dots> = layout_loop ?V
         (\<lparr>remaining = [ch CHR ''x''], position = 1 + n,
           token_start = (if n = 0 then 1 else 1 + n),
           token_end = Some 0, result_symbol = NEWLINE\<rparr>, True, 0 + of_nat n, - 1)"
    by (rule layout_loop_spaces)
  also have "\<dots> = Next
         (\<lparr>remaining = [ch CHR ''x''], position = n + 1, token_start = n + 1,
           token_end = Some 0, result_symbol = NEWLINE\<rparr>, True, of_nat n, - 1)"
    using n by (subst layout_loop.simps) (simp add: layout_step_def lexer_eval valid_of_def)
  finally have l: "layout_loop ?V (mark_end ?L, False, 0, - 1) = Next
         (\<lparr>remaining = [ch CHR ''x''], position = n + 1, token_start = n + 1,
           token_end = Some 0, result_symbol = NEWLINE\<rparr>, True, of_nat n, - 1)" .
  have gt: "(0 :: 32 word) < of_nat n" using assms by (simp add: word_gt_0)
  have m: "layout_emit create ?V
         (\<lparr>remaining = [ch CHR ''x''], position = n + 1, token_start = n + 1,
           token_end = Some 0, result_symbol = NEWLINE\<rparr>, True, of_nat n, - 1)
       = Return (True,
            \<lparr>indents = [0, ucast (of_nat n :: 32 word)], delimiters = [], inside_f_string = False\<rparr>,
            \<lparr>remaining = [ch CHR ''x''], position = n + 1, token_start = n + 1,
             token_end = Some 0, result_symbol = INDENT\<rparr>)"
    using gt
    by (simp add: layout_emit_def layout_indent_dedent_def create_def deserialize_def
          valid_of_def emit_def)
  have "scan_front create ?L ?V = Return (True,
            \<lparr>indents = [0, ucast (of_nat n :: 32 word)], delimiters = [], inside_f_string = False\<rparr>,
            \<lparr>remaining = [ch CHR ''x''], position = n + 1, token_start = n + 1,
             token_end = Some 0, result_symbol = INDENT\<rparr>)"
    unfolding scan_front_def e then_flow.simps c l flow.case m ..
  then show ?thesis by (simp only: scan_def flow.case)
qed


section \<open>How scan changes the scanner state\<close>

lemma then_flow_eq_Return:
  "(then_flow x f = Return r) = (x = Return r \<or> (\<exists>a. x = Next a \<and> f a = Return r))"
  by (cases x) auto

lemma then_flow_eq_Next:
  "(then_flow x f = Next k) = (\<exists>a. x = Next a \<and> f a = Next k)"
  by (cases x) auto

lemma content_step_state:
  "content_step s d a c = Return (b, s', lx') \<Longrightarrow> s' = s \<or> s' = pop_delimiter s"
  by (cases c)
     (auto simp: content_step_def content_triple_quote_def Let_def split: if_splits)

lemma content_loop_state:
  "content_loop s d a c = Return (b, s', lx') \<Longrightarrow> s' = s \<or> s' = pop_delimiter s"
proof (induction s d a c rule: content_loop.induct)
  case (1 s d a c)
  show ?case
  proof (cases "lookahead (fst c) \<noteq> 0")
    case False
    with "1.prems" show ?thesis by (subst (asm) content_loop.simps) simp
  next
    case True
    show ?thesis
    proof (cases "content_step s d a c")
      case (Return r)
      with True "1.prems" have "content_step s d a c = Return (b, s', lx')"
        by (subst (asm) content_loop.simps) simp
      then show ?thesis by (rule content_step_state)
    next
      case (Next c')
      with True "1.prems" have "content_loop s d a c' = Return (b, s', lx')"
        by (subst (asm) content_loop.simps) simp
      with "1.IH" [OF True Next] show ?thesis by simp
    qed
  qed
qed

lemma layout_emit_indents:
  "layout_emit s valid st = Return (b, s', lx') \<Longrightarrow> indents_change (indents s) (indents s')"
  by (cases st)
     (auto simp: layout_emit_def layout_indent_dedent_def Let_def indents_change_def
           split: if_splits)

lemma scan_front_indents:
  assumes "scan_front s lexer valid = Return (b, s', lx')"
  shows "indents_change (indents s) (indents s')"
proof (cases "scan_escape s lexer valid")
  case (Return r)
  with assms have "scan_escape s lexer valid = Return (b, s', lx')"
    by (simp add: scan_front_def)
  then have "s' = s" by (auto simp: scan_escape_def Let_def split: if_splits)
  then show ?thesis by (simp add: indents_change_def)
next
  case e: (Next a)
  show ?thesis
  proof (cases "scan_string_content s lexer valid a")
    case (Return r)
    with assms e have "scan_string_content s lexer valid a = Return (b, s', lx')"
      by (simp add: scan_front_def)
    then have "s' = s \<or> s' = pop_delimiter s"
      by (auto simp: scan_string_content_def split: if_splits dest: content_loop_state)
    then show ?thesis by (auto simp: indents_change_def pop_delimiter_def)
  next
    case c: (Next lx1)
    show ?thesis
    proof (cases "layout_loop valid (mark_end lx1, False, 0, - 1)")
      case (Return lx)
      with assms e c show ?thesis by (simp add: scan_front_def indents_change_def)
    next
      case (Next st)
      with assms e c have "layout_emit s valid st = Return (b, s', lx')"
        by (cases "layout_emit s valid st") (simp_all add: scan_front_def)
      then show ?thesis by (rule layout_emit_indents)
    qed
  qed
qed

lemma scan_dispatch_indents:
  assumes "scan_dispatch s valid lx fc = (b, s', lx')"
  shows "indents s' = indents s"
proof -
  have l: "scan_logical s valid lx = Return (b, s', lx') \<Longrightarrow> s' = s"
    by (auto simp: scan_logical_def Let_def split: if_splits)
  have k: "scan_keyword s valid lx = Return (b, s', lx') \<Longrightarrow> s' = s"
    by (auto simp: scan_keyword_def Let_def split: if_splits)
  have p: "\<And>lx1. scan_subprocess s valid lx fc = Return (b, s', lx') \<Longrightarrow> indents s' = indents s"
    by (auto simp: scan_subprocess_def Let_def push_delimiter_def split: if_splits prod.splits)
  have q: "\<And>lx1. scan_path_prefix s valid lx1 fc = Return (b, s', lx') \<Longrightarrow> s' = s"
    by (auto simp: scan_path_prefix_def Let_def split: if_splits)
  have r: "\<And>lx1. scan_string_start s valid lx1 fc = (b, s', lx') \<Longrightarrow> indents s' = indents s"
    by (auto simp: scan_string_start_def Let_def push_delimiter_def split: if_splits prod.splits)
  from assms l k p q r show ?thesis
    by (auto simp: scan_dispatch_def scan_operators_def scan_after_operators_def
        then_flow_eq_Return then_flow_eq_Next split: flow.splits)
qed

lemma scan_indents:
  assumes "scan s lexer valid = (b, s', lx')"
  shows "indents_change (indents s) (indents s')"
proof (cases "scan_front s lexer valid")
  case (Return r)
  with assms have "scan_front s lexer valid = Return (b, s', lx')" by (simp add: scan_def)
  then show ?thesis by (rule scan_front_indents)
next
  case (Next p)
  obtain lx fc where "p = (lx, fc)" by (cases p) auto
  with Next assms have "scan_dispatch s valid lx fc = (b, s', lx')" by (simp add: scan_def)
  from scan_dispatch_indents [OF this] show ?thesis by (simp add: indents_change_def)
qed

lemma indents_change_bottom:
  assumes "indents_change old new" and "old \<noteq> []" and "hd old = 0"
  shows "new \<noteq> [] \<and> hd new = 0"
proof -
  from assms(1) consider "new = old" | w where "new = old @ [w]"
    | "new = butlast old" "last old \<noteq> 0"
    by (auto simp: indents_change_def)
  then show ?thesis
  proof cases
    case 1
    with assms show ?thesis by simp
  next
    case 2
    with assms show ?thesis by simp
  next
    case 3
    from assms(2) obtain x xs where old: "old = x # xs" by (cases old) auto
    with assms(3) 3(2) have "xs \<noteq> []" by auto
    with old 3(1) assms(3) show ?thesis by simp
  qed
qed

lemma reachable_bottom:
  "reachable cap s \<Longrightarrow> indents s \<noteq> [] \<and> hd (indents s) = 0"
proof (induction rule: reachable.induct)
  case reachable_create
  show ?case by (simp add: create_def deserialize_def)
next
  case (reachable_scan s lexer valid b s' lx')
  from scan_indents [OF reachable_scan.hyps(2)] reachable_scan.IH
  show ?case by (simp add: indents_change_bottom)
next
  case (reachable_restore s s0)
  show ?case by (simp add: deserialize_def Let_def)
qed


section \<open>The round trip through the serialized form (claim C3)\<close>

lemma round_trip_exact:
  assumes "indents s \<noteq> []" and "hd (indents s) = 0"
    and "length (delimiters s) \<le> 255" and "\<forall>w \<in> set (indents s). unat w \<le> 255"
    and "1 + length (delimiters s) + length (indents s) \<le> cap"
  shows "deserialize s0 (serialize cap s) = s"
proof -
  have dc: "min 255 (length (delimiters s)) = length (delimiters s)"
    using assms(3) by simp
  have tk: "take (cap - (2 + length (delimiters s))) (tl (indents s)) = tl (indents s)"
    using assms(1,5) by (cases "indents s") auto
  have "\<forall>w \<in> set (tl (indents s)). ucast (ucast w :: 8 word) = w"
  proof
    fix w assume "w \<in> set (tl (indents s))"
    with assms(1) have "w \<in> set (indents s)" by (cases "indents s") auto
    with assms(4) have "unat w \<le> 255" by simp
    then have "unat w mod 256 = unat w" by simp
    then show "ucast (ucast w :: 8 word) = w" by (simp add: low_byte_restored)
  qed
  then have mp: "map (\<lambda>w. ucast (ucast w :: 8 word)) (tl (indents s)) = tl (indents s)"
    by (simp add: map_idI)
  have tkd: "take 255 (delimiters s) = delimiters s"
    using assms(3) by simp
  have z: "0 # tl (indents s) = indents s"
    using assms(1,2) by (cases "indents s") auto
  have "deserialize s0 (serialize cap s)
     = \<lparr>indents = 0 # map (\<lambda>w. ucast (ucast w :: 8 word))
                       (take (cap - (2 + min 255 (length (delimiters s)))) (tl (indents s))),
        delimiters = take 255 (delimiters s),
        inside_f_string = inside_f_string s\<rparr>"
    by (rule deserialize_serialize)
  also have "\<dots> = \<lparr>indents = indents s, delimiters = delimiters s,
                    inside_f_string = inside_f_string s\<rparr>"
    by (simp only: dc tk mp tkd z)
  finally show ?thesis by simp
qed

text \<open>
  C3, as amended. For every reachable scanner state that the serialized form can hold,
  that is with at most 255 open delimiters, every indent width at most 255, and the two
  header bytes, the delimiters and the indents above the bottom fitting the buffer,
  \<^verbatim>\<open>serialize\<close> followed by \<^verbatim>\<open>deserialize\<close> gives back the same state, so scan on the
  restored state gives the same result, lexer and successor state for every input and
  every valid-symbol vector.
\<close>

theorem C3_round_trip:
  assumes "reachable cap s" and "length (delimiters s) \<le> 255"
    and "\<forall>w \<in> set (indents s). unat w \<le> 255"
    and "1 + length (delimiters s) + length (indents s) \<le> cap"
  shows "deserialize s0 (serialize cap s) = s \<and>
         scan (deserialize s0 (serialize cap s)) lexer valid = scan s lexer valid"
proof -
  from reachable_bottom [OF assms(1)]
  have "deserialize s0 (serialize cap s) = s"
    using assms(2-4) by (simp add: round_trip_exact)
  then show ?thesis by simp
qed

lemma reachable_indent_4:
  "reachable cap \<lparr>indents = [0, 4], delimiters = [], inside_f_string = False\<rparr>"
proof -
  have "scan create (start_lexer (c_newline # replicate 4 c_space @ [ch CHR ''x'']) 0)
           (valid_of [INDENT])
         = (True, \<lparr>indents = [0, 4], delimiters = [], inside_f_string = False\<rparr>,
            \<lparr>remaining = [ch CHR ''x''], position = 5, token_start = 5,
             token_end = Some 0, result_symbol = INDENT\<rparr>)"
    using scan_indent_spaces [of 4] by simp
  from reachable_scan [OF reachable_create this] show ?thesis .
qed

text \<open>
  Witness for C3: the state with indent stack \<open>[0, 4]\<close>, reached by an \<^verbatim>\<open>INDENT\<close> over
  four spaces, survives the round trip through a buffer of 1024 bytes.
\<close>

theorem C3_round_trip_witness:
  "reachable 1024 \<lparr>indents = [0, 4], delimiters = [], inside_f_string = False\<rparr> \<and>
   deserialize create (serialize 1024 \<lparr>indents = [0, 4], delimiters = [], inside_f_string = False\<rparr>)
     = \<lparr>indents = [0, 4], delimiters = [], inside_f_string = False\<rparr> \<and>
   scan (deserialize create
           (serialize 1024 \<lparr>indents = [0, 4], delimiters = [], inside_f_string = False\<rparr>))
        (start_lexer (c_newline # map ch ''x'') 0) (valid_of [DEDENT])
     = scan \<lparr>indents = [0, 4], delimiters = [], inside_f_string = False\<rparr>
        (start_lexer (c_newline # map ch ''x'') 0) (valid_of [DEDENT])"
  using C3_round_trip [OF reachable_indent_4 [of 1024], of create
      "start_lexer (c_newline # map ch ''x'') 0" "valid_of [DEDENT]"]
    reachable_indent_4 [of 1024]
  by simp

lemma reachable_indent_256:
  "reachable cap \<lparr>indents = [0, 256], delimiters = [], inside_f_string = False\<rparr>"
proof -
  have "scan create (start_lexer (c_newline # replicate 256 c_space @ [ch CHR ''x'']) 0)
           (valid_of [INDENT])
         = (True, \<lparr>indents = [0, 256], delimiters = [], inside_f_string = False\<rparr>,
            \<lparr>remaining = [ch CHR ''x''], position = 257, token_start = 257,
             token_end = Some 0, result_symbol = INDENT\<rparr>)"
    using scan_indent_spaces [of 256] by simp
  from reachable_scan [OF reachable_create this] show ?thesis .
qed

lemma scan_push_quote:
  "scan s (start_lexer [c_dquote, ch CHR ''x''] 0) (valid_of [STRING_START])
     = (True, push_delimiter s \<lparr>flags = 2\<rparr>,
        emit STRING_START (mark_end (advance (mark_end (start_lexer [c_dquote, ch CHR ''x''] 0)))))"
  by (simp add: all_eval valid_of_def)

lemma reachable_quotes:
  "reachable cap \<lparr>indents = [0], delimiters = replicate n \<lparr>flags = 2\<rparr>, inside_f_string = False\<rparr>"
proof (induction n)
  case 0
  have "create = \<lparr>indents = [0], delimiters = [], inside_f_string = False\<rparr>"
    by (simp add: create_def deserialize_def)
  with reachable_create [of cap] show ?case by simp
next
  case (Suc n)
  have "push_delimiter \<lparr>indents = [0], delimiters = replicate n \<lparr>flags = 2\<rparr>,
                         inside_f_string = False\<rparr> \<lparr>flags = 2\<rparr>
        = \<lparr>indents = [0], delimiters = replicate (Suc n) \<lparr>flags = 2\<rparr>, inside_f_string = False\<rparr>"
    by (simp add: push_delimiter_def delimiter_eval replicate_append_same)
  with reachable_scan [OF Suc.IH scan_push_quote] show ?case by simp
qed

text \<open>
  Counterexample to C3 as stated. The state with indent stack \<open>[0, 256]\<close> is reached by
  an \<^verbatim>\<open>INDENT\<close> over 256 spaces; it is restored as \<open>[0, 0]\<close>, and on a following line
  at column 0 with \<^verbatim>\<open>DEDENT\<close> valid the original state emits a token while the
  restored one emits none. The state with 256 open delimiters is reached by 256 string
  starts; it is restored with 255.
\<close>

theorem C3_counterexample:
  "reachable 1024 \<lparr>indents = [0, 256], delimiters = [], inside_f_string = False\<rparr> \<and>
   deserialize create (serialize 1024 \<lparr>indents = [0, 256], delimiters = [], inside_f_string = False\<rparr>)
     = \<lparr>indents = [0, 0], delimiters = [], inside_f_string = False\<rparr> \<and>
   fst (scan \<lparr>indents = [0, 256], delimiters = [], inside_f_string = False\<rparr>
          (start_lexer (c_newline # map ch ''x'') 0) (valid_of [DEDENT])) \<and>
   \<not> fst (scan (deserialize create
                  (serialize 1024 \<lparr>indents = [0, 256], delimiters = [], inside_f_string = False\<rparr>))
            (start_lexer (c_newline # map ch ''x'') 0) (valid_of [DEDENT])) \<and>
   reachable 1024 \<lparr>indents = [0], delimiters = replicate 256 \<lparr>flags = 2\<rparr>,
                   inside_f_string = False\<rparr> \<and>
   length (delimiters (deserialize create
      (serialize 1024 \<lparr>indents = [0], delimiters = replicate 256 \<lparr>flags = 2\<rparr>,
                       inside_f_string = False\<rparr>))) = 255"
proof -
  have a: "deserialize create (serialize 1024 \<lparr>indents = [0, 256], delimiters = [], inside_f_string = False\<rparr>)
     = \<lparr>indents = [0, 0], delimiters = [], inside_f_string = False\<rparr>"
    by (simp add: deserialize_serialize)
  have b: "fst (scan \<lparr>indents = [0, 256], delimiters = [], inside_f_string = False\<rparr>
          (start_lexer (c_newline # map ch ''x'') 0) (valid_of [DEDENT]))"
    by (simp add: all_eval valid_of_def)
  have c: "\<not> fst (scan \<lparr>indents = [0, 0], delimiters = [], inside_f_string = False\<rparr>
          (start_lexer (c_newline # map ch ''x'') 0) (valid_of [DEDENT]))"
    by (simp add: all_eval valid_of_def)
  have d: "length (delimiters (deserialize create
      (serialize 1024 \<lparr>indents = [0], delimiters = replicate 256 \<lparr>flags = 2\<rparr>,
                       inside_f_string = False\<rparr>))) = 255"
    by (simp add: deserialize_serialize)
  from a b c d reachable_indent_256 [of 1024] reachable_quotes [of 1024 256]
  show ?thesis by simp
qed


section \<open>The indent stack (claim C4)\<close>

text \<open>
  C4, evaluated where the code departs from it. From the initial state with
  \<^verbatim>\<open>INDENT\<close> valid, a line end followed by 65536 spaces makes scan emit \<^verbatim>\<open>INDENT\<close>
  and push the width truncated to 16 bits, which is 0: the indent stack is \<open>[0, 0]\<close>,
  not strictly increasing. Likewise the reachable stack \<open>[0, 256]\<close> is restored from its
  serialized form as \<open>[0, 0]\<close>.
\<close>

theorem C4_indent_width_wraps:
  "scan create (start_lexer (c_newline # replicate 65536 c_space @ [ch CHR ''x'']) 0)
     (valid_of [INDENT])
   = (True, \<lparr>indents = [0, 0], delimiters = [], inside_f_string = False\<rparr>,
      \<lparr>remaining = [ch CHR ''x''], position = 65537, token_start = 65537,
       token_end = Some 0, result_symbol = INDENT\<rparr>) \<and>
   reachable 1024 \<lparr>indents = [0, 256], delimiters = [], inside_f_string = False\<rparr> \<and>
   indents (deserialize create
      (serialize 1024 \<lparr>indents = [0, 256], delimiters = [], inside_f_string = False\<rparr>)) = [0, 0]"
proof -
  have a: "scan create (start_lexer (c_newline # replicate 65536 c_space @ [ch CHR ''x'']) 0)
     (valid_of [INDENT])
   = (True, \<lparr>indents = [0, 0], delimiters = [], inside_f_string = False\<rparr>,
      \<lparr>remaining = [ch CHR ''x''], position = 65537, token_start = 65537,
       token_end = Some 0, result_symbol = INDENT\<rparr>)"
    using scan_indent_spaces [of 65536] by simp
  have b: "indents (deserialize create
      (serialize 1024 \<lparr>indents = [0, 256], delimiters = [], inside_f_string = False\<rparr>)) = [0, 0]"
    by (simp add: deserialize_serialize)
  from a b reachable_indent_256 [of 1024] show ?thesis by simp
qed

section \<open>Backslashes in bytes strings (claim C7)\<close>

text \<open>
  The part of C7 that holds: in a bytes string that is not raw, a backslash followed by
  anything but \<^verbatim>\<open>N\<close>, \<^verbatim>\<open>u\<close>, \<^verbatim>\<open>U\<close> ends the content run at the backslash (a token
  exactly when content was accumulated).
\<close>

lemma bytes_backslash_terminates:
  assumes "lookahead lx = c_backslash" and "is_bytes d" and "\<not> is_raw d"
    and "lookahead (advance lx) \<noteq> ch CHR ''N''" and "lookahead (advance lx) \<noteq> ch CHR ''u''"
    and "lookahead (advance lx) \<noteq> ch CHR ''U''"
  shows "content_step s d False (lx, has_content)
         = Return (has_content, s, emit STRING_CONTENT (advance (mark_end lx)))"
proof -
  have "lookahead (advance (mark_end lx)) = lookahead (advance lx)"
    by (cases "remaining lx") (simp_all add: lexer_eval)
  with assms show ?thesis by (simp add: content_step_def Let_def)
qed

text \<open>
  C7, evaluated where the code departs from it. Inside \<^verbatim>\<open>b"\<close>, on the input
  \<^verbatim>\<open>\N"\<close> one pass of the content loop steps over the backslash, the \<^verbatim>\<open>N\<close> and the
  closing quote as well (three characters), so scan runs to the end of input and emits no
  token; on \<^verbatim>\<open>ab"\<close> the same state emits the content up to the quote.
\<close>

theorem C7_bytes_escape_overrun:
  "content_step \<lparr>indents = [0], delimiters = [\<lparr>flags = 66\<rparr>], inside_f_string = False\<rparr>
      \<lparr>flags = 66\<rparr> False
      (start_lexer (c_backslash # ch CHR ''N'' # [c_dquote]) 0, False)
     = Next (\<lparr>remaining = [], position = 3, token_start = 0, token_end = Some 0,
              result_symbol = NEWLINE\<rparr>, True) \<and>
   \<not> fst (scan \<lparr>indents = [0], delimiters = [\<lparr>flags = 66\<rparr>], inside_f_string = False\<rparr>
           (start_lexer (c_backslash # ch CHR ''N'' # [c_dquote]) 0)
           (valid_of [STRING_CONTENT])) \<and>
   scan \<lparr>indents = [0], delimiters = [\<lparr>flags = 66\<rparr>], inside_f_string = False\<rparr>
      (start_lexer (map ch ''ab'' @ [c_dquote]) 0) (valid_of [STRING_CONTENT])
     = (True, \<lparr>indents = [0], delimiters = [\<lparr>flags = 66\<rparr>], inside_f_string = False\<rparr>,
        \<lparr>remaining = [c_dquote], position = 2, token_start = 0, token_end = Some 2,
         result_symbol = STRING_CONTENT\<rparr>)"
  by (simp add: all_eval valid_of_def)

section \<open>The detector and the committed position (claim C2)\<close>

lemma peeked_refl [simp]: "peeked lx lx"
  by (simp add: peeked_def)

lemma peeked_trans: "peeked a b \<Longrightarrow> peeked b c \<Longrightarrow> peeked a c"
  by (auto simp: peeked_def)

lemma peeked_advance [simp]: "peeked lx (advance lx)"
  by (cases "remaining lx") (simp_all add: peeked_def advance_def lexer_advance_def)

lemma peeked_advance_trans: "peeked a b \<Longrightarrow> peeked a (advance b)"
  by (rule peeked_trans [OF _ peeked_advance])

lemma peeked_advance2 [simp]: "peeked lx (advance (advance lx))"
  by (simp add: peeked_advance_trans)

lemma peeked_skip_whitespace [simp]: "peeked lx (skip_whitespace lx)"
proof (induction lx rule: skip_whitespace.induct)
  case (1 lx)
  show ?case
  proof (cases "is_whitespace (lookahead lx)")
    case True
    with 1 have "peeked (advance lx) (skip_whitespace (advance lx))" by simp
    with peeked_advance [of lx] have "peeked lx (skip_whitespace (advance lx))"
      by (rule peeked_trans)
    with True show ?thesis by (subst skip_whitespace.simps) simp
  next
    case False
    then show ?thesis by (subst skip_whitespace.simps) simp
  qed
qed

lemma peeked_skip_identifier [simp]: "peeked lx (skip_identifier lx)"
proof (induction lx rule: skip_identifier.induct)
  case (1 lx)
  show ?case
  proof (cases "is_identifier_char (lookahead lx)")
    case True
    with 1 have "peeked (advance lx) (skip_identifier (advance lx))" by simp
    with peeked_advance [of lx] have "peeked lx (skip_identifier (advance lx))"
      by (rule peeked_trans)
    with True show ?thesis by (subst skip_identifier.simps) simp
  next
    case False
    then show ?thesis by (subst skip_identifier.simps) simp
  qed
qed

lemma peeked_skip_commas [simp]: "peeked lx (skip_commas lx)"
proof (induction lx rule: skip_commas.induct)
  case (1 lx)
  show ?case
  proof (cases "lookahead lx = ch CHR '',''")
    case True
    with 1 have "peeked (advance lx) (skip_commas (advance lx))" by simp
    with peeked_advance [of lx] have "peeked lx (skip_commas (advance lx))"
      by (rule peeked_trans)
    with True show ?thesis by (subst skip_commas.simps) simp
  next
    case False
    then show ?thesis by (subst skip_commas.simps) simp
  qed
qed

lemma peeked_skip_whitespace_count [simp]: "peeked lx (fst (skip_whitespace_count lx pos))"
proof (induction lx pos rule: skip_whitespace_count.induct)
  case (1 lx pos)
  show ?case
  proof (cases "is_whitespace (lookahead lx)")
    case True
    with 1 have "peeked (advance lx) (fst (skip_whitespace_count (advance lx) (pos + 1)))"
      by simp
    with peeked_advance [of lx]
    have "peeked lx (fst (skip_whitespace_count (advance lx) (pos + 1)))"
      by (rule peeked_trans)
    with True show ?thesis by (subst skip_whitespace_count.simps) simp
  next
    case False
    then show ?thesis by (subst skip_whitespace_count.simps) simp
  qed
qed

lemma peeked_skip_identifier_count [simp]: "peeked lx (fst (skip_identifier_count lx pos))"
proof (induction lx pos rule: skip_identifier_count.induct)
  case (1 lx pos)
  show ?case
  proof (cases "is_identifier_char (lookahead lx)")
    case True
    with 1 have "peeked (advance lx) (fst (skip_identifier_count (advance lx) (pos + 1)))"
      by simp
    with peeked_advance [of lx]
    have "peeked lx (fst (skip_identifier_count (advance lx) (pos + 1)))"
      by (rule peeked_trans)
    with True show ?thesis by (subst skip_identifier_count.simps) simp
  next
    case False
    then show ?thesis by (subst skip_identifier_count.simps) simp
  qed
qed

lemma peeked_read_identifier [simp]: "peeked lx (fst (read_identifier lx buf))"
proof (induction lx buf rule: read_identifier.induct)
  case (1 lx buf)
  show ?case
  proof (cases "is_identifier_char (lookahead lx) \<and> length buf < 63")
    case True
    with 1 have "peeked (advance lx) (fst (read_identifier (advance lx) (buf @ [lookahead lx])))"
      by simp
    with peeked_advance [of lx]
    have "peeked lx (fst (read_identifier (advance lx) (buf @ [lookahead lx])))"
      by (rule peeked_trans)
    with True show ?thesis by (subst read_identifier.simps) simp
  next
    case False
    then show ?thesis by (subst read_identifier.simps) auto
  qed
qed

lemma peeked_probes:
  "peeked lx (flow_lexer snd fst (probe_slash (lx, pos)))"
  "peeked lx (flow_lexer snd fst (probe_dot (lx, pos)))"
  "peeked lx (flow_lexer snd fst (probe_tilde (lx, pos)))"
  "peeked lx (flow_lexer snd fst (probe_dollar (lx, pos)))"
  "peeked lx (flow_lexer snd fst (probe_bang (lx, pos)))"
  "peeked lx (flow_lexer snd fst (probe_bracket (lx, pos)))"
  by (simp_all add: probe_slash_def probe_dot_def probe_tilde_def probe_dollar_def
        probe_bang_def probe_bracket_def)

lemma peeked_read_identifierD: "read_identifier lx buf = (lx', b) \<Longrightarrow> peeked lx lx'"
  using peeked_read_identifier [of lx buf] by simp

lemma peeked_skip_whitespace_countD: "skip_whitespace_count lx pos = (lx', p) \<Longrightarrow> peeked lx lx'"
  using peeked_skip_whitespace_count [of lx pos] by simp

lemma peeked_skip_identifier_countD: "skip_identifier_count lx pos = (lx', p) \<Longrightarrow> peeked lx lx'"
  using peeked_skip_identifier_count [of lx pos] by simp

lemma peeked_probe_at_command: "peeked lx (snd (probe_at_command lx))"
  by (auto simp: probe_at_command_def split: prod.splits dest: peeked_read_identifierD)

lemma peeked_probe_at: "peeked lx (flow_lexer snd fst (probe_at (lx, pos)))"
proof -
  obtain lx2 pos2 where a: "skip_identifier_count (advance lx) (pos + 1) = (lx2, pos2)"
    by (cases "skip_identifier_count (advance lx) (pos + 1)") auto
  obtain lx3 pos3 where b: "skip_whitespace_count lx2 pos2 = (lx3, pos3)"
    by (cases "skip_whitespace_count lx2 pos2") auto
  from peeked_skip_identifier_countD [OF a]
  have p2: "peeked lx lx2" by (rule peeked_trans [OF peeked_advance])
  from p2 peeked_skip_whitespace_countD [OF b]
  have p3: "peeked lx lx3" by (rule peeked_trans)
  from p3 peeked_probe_at_command [of lx3]
  have p4: "peeked lx (snd (probe_at_command lx3))" by (rule peeked_trans)
  show ?thesis using a b p2 p3 p4 by (simp add: probe_at_def)
qed

lemma flow_lexer_then:
  assumes "peeked lx (flow_lexer snd fst x)"
    and "\<And>lx1 pos1. peeked lx1 (flow_lexer snd fst (f (lx1, pos1)))"
  shows "peeked lx (flow_lexer snd fst (then_flow x f))"
proof (cases x)
  case (Return r)
  with assms(1) show ?thesis by simp
next
  case (Next k)
  obtain lx1 pos1 where k: "k = (lx1, pos1)" by (cases k) auto
  with Next assms(1) have "peeked lx lx1" by simp
  from this assms(2) [of lx1 pos1] have "peeked lx (flow_lexer snd fst (f (lx1, pos1)))"
    by (rule peeked_trans)
  with Next k show ?thesis by simp
qed

lemma peeked_detect_probes: "peeked lx (flow_lexer snd fst (detect_probes lx))"
  unfolding detect_probes_def
  by (intro flow_lexer_then peeked_probes peeked_probe_at)

lemma peeked_ident_help_check:
  "peeked lx (flow_lexer det_lexer id (ident_help_check lx sd))"
  by (auto simp: ident_help_check_def Let_def intro!: peeked_trans [OF _ peeked_skip_whitespace])

lemma peeked_ident_macro_check:
  "peeked lx (flow_lexer det_lexer fst (ident_macro_check lx first_ident pos sd))"
  by (auto simp: ident_macro_check_def split: prod.splits
      dest!: peeked_skip_whitespace_countD intro: peeked_trans [OF peeked_advance])

lemma peeked_detect_first_identifier:
  "peeked lx (flow_lexer det_lexer fst (detect_first_identifier lx pos sd))"
proof -
  let ?lx0 = "if lookahead lx = ch CHR ''$'' then advance lx else lx"
  have p0: "peeked lx ?lx0" by simp
  show ?thesis
  proof (cases "is_identifier_start (lookahead ?lx0)")
    case False
    with p0 show ?thesis by (auto simp: detect_first_identifier_def)
  next
    case True
    obtain lx1 ident where r: "read_identifier ?lx0 [] = (lx1, ident)"
      by (cases "read_identifier ?lx0 []") auto
    from p0 peeked_read_identifierD [OF r] have p1: "peeked lx lx1" by (rule peeked_trans)
    let ?pos = "(if lookahead lx = ch CHR ''$'' then pos + 1 else pos) + length ident"
    have body: "peeked lx (flow_lexer det_lexer fst
        (then_flow (ident_prefix_check lx1 ident sd) (\<lambda>_.
         then_flow (ident_help_check lx1 sd) (\<lambda>lx2.
         then_flow (ident_keyword_check lx2 ident sd) (\<lambda>_.
         then_flow (ident_macro_check lx2 ident ?pos sd)
           (\<lambda>(lx3, pos3). Next (lx3, ident, pos3)))))))"
    proof (cases "ident_prefix_check lx1 ident sd")
      case (Return d)
      then have "det_lexer d = lx1" by (auto simp: ident_prefix_check_def split: if_splits)
      with Return p1 show ?thesis by simp
    next
      case pc: (Next u)
      show ?thesis
      proof (cases "ident_help_check lx1 sd")
        case (Return d)
        with peeked_ident_help_check [of lx1 sd] p1 pc show ?thesis
          by (auto intro: peeked_trans)
      next
        case hc: (Next lx2)
        with peeked_ident_help_check [of lx1 sd] p1 have p2: "peeked lx lx2"
          by (auto intro: peeked_trans)
        show ?thesis
        proof (cases "ident_keyword_check lx2 ident sd")
          case (Return d)
          then have "det_lexer d = lx2" by (auto simp: ident_keyword_check_def split: if_splits)
          with Return pc hc p2 show ?thesis by simp
        next
          case kc: (Next u')
          show ?thesis
          proof (cases "ident_macro_check lx2 ident ?pos sd")
            case (Return d)
            with peeked_ident_macro_check [of lx2 ident ?pos sd] p2 pc hc kc show ?thesis
              by (auto intro: peeked_trans)
          next
            case (Next k)
            obtain lx3 pos3 where k: "k = (lx3, pos3)" by (cases k) auto
            with Next peeked_ident_macro_check [of lx2 ident ?pos sd] p2
            have "peeked lx lx3" by (auto intro: peeked_trans)
            with Next k pc hc kc show ?thesis by simp
          qed
        qed
      qed
    qed
    from True r body show ?thesis
      by (simp add: detect_first_identifier_def Let_def split: if_splits)
  qed
qed

lemma peeked_detect_comma_line:
  "peeked lx (flow_lexer snd id (detect_comma_line lx first_ident))"
  by (auto simp: detect_comma_line_def Let_def
      intro: peeked_trans [OF peeked_skip_commas peeked_skip_whitespace])

lemma peeked_line_step: "peeked lx (snd (line_step st lx))"
  by (simp add: line_step_def line_step_defs Let_def peeked_advance_trans
        peeked_trans [OF peeked_advance peeked_skip_whitespace])

lemma peeked_rest_of_line: "peeked lx (snd (rest_of_line st lx))"
proof (induction st lx rule: rest_of_line.induct)
  case (1 st lx)
  show ?case
  proof (cases "lookahead lx \<noteq> 0 \<and> lookahead lx \<noteq> c_newline")
    case False
    then show ?thesis by (subst rest_of_line.simps) auto
  next
    case True
    obtain st' lx' where s: "line_step st lx = (st', lx')" by (cases "line_step st lx") auto
    with peeked_line_step [of lx st] have a: "peeked lx lx'" by simp
    from "1.IH" [OF True s [symmetric]] have "peeked lx' (snd (rest_of_line st' lx'))" .
    with a have "peeked lx (snd (rest_of_line st' lx'))" by (rule peeked_trans)
    with True s show ?thesis by (subst rest_of_line.simps) simp
  qed
qed

lemma peeked_detect_subprocess_line:
  "peeked (mark_end lexer) (det_lexer (detect_subprocess_line lexer sd))"
proof -
  let ?lx0 = "skip_whitespace (mark_end lexer)"
  have p0: "peeked (mark_end lexer) ?lx0" by simp
  show ?thesis
  proof (cases "detect_probes ?lx0")
    case (Return r)
    obtain res lx where r: "r = (res, lx)" by (cases r) auto
    with Return peeked_detect_probes [of ?lx0] have "peeked ?lx0 lx" by simp
    with p0 have "peeked (mark_end lexer) lx" by (rule peeked_trans)
    with Return r show ?thesis
      by (simp add: detect_subprocess_line_def line_analysis_def wrap_result_def)
  next
    case pr: (Next k)
    obtain lx1 pos where k: "k = (lx1, pos)" by (cases k) auto
    with pr peeked_detect_probes [of ?lx0] have "peeked ?lx0 lx1" by simp
    with p0 have p1: "peeked (mark_end lexer) lx1" by (rule peeked_trans)
    show ?thesis
    proof (cases "detect_first_identifier lx1 pos sd")
      case (Return d)
      with peeked_detect_first_identifier [of lx1 pos sd] have "peeked lx1 (det_lexer d)" by simp
      with p1 have "peeked (mark_end lexer) (det_lexer d)" by (rule peeked_trans)
      with pr k Return show ?thesis
        by (simp add: detect_subprocess_line_def line_analysis_def)
    next
      case fi: (Next k2)
      obtain lx2 ident pos2 where k2: "k2 = (lx2, ident, pos2)" by (cases k2) auto
      with fi peeked_detect_first_identifier [of lx1 pos sd] have "peeked lx1 lx2" by simp
      with p1 have p2: "peeked (mark_end lexer) lx2" by (rule peeked_trans)
      show ?thesis
      proof (cases "detect_comma_line lx2 ident")
        case (Return r)
        obtain res lx where r: "r = (res, lx)" by (cases r) auto
        with Return peeked_detect_comma_line [of lx2 ident] have "peeked lx2 lx" by simp
        with p2 have "peeked (mark_end lexer) lx" by (rule peeked_trans)
        with pr k fi k2 Return r show ?thesis
          by (simp add: detect_subprocess_line_def line_analysis_def wrap_result_def)
      next
        case cl: (Next lx3)
        with peeked_detect_comma_line [of lx2 ident] have "peeked lx2 lx3" by simp
        with p2 have p3: "peeked (mark_end lexer) lx3" by (rule peeked_trans)
        obtain st lx4 where rl: "rest_of_line (initial_line_state ident) lx3 = (st, lx4)"
          by (cases "rest_of_line (initial_line_state ident) lx3") auto
        with peeked_rest_of_line [of lx3 "initial_line_state ident"] have "peeked lx3 lx4"
          by simp
        with p3 have "peeked (mark_end lexer) lx4" by (rule peeked_trans)
        with pr k fi k2 cl rl show ?thesis
          by (simp add: detect_subprocess_line_def line_analysis_def wrap_result_def)
      qed
    qed
  qed
qed

text \<open>
  The part of C2 that holds for the detector itself: it marks the end at its entry
  position and then only looks ahead, so the marked end it leaves is its entry position
  and the start of the token is untouched.
\<close>

lemma detector_keeps_mark:
  "token_end (det_lexer (detect_subprocess_line lexer sd)) = Some (position lexer) \<and>
   token_start (det_lexer (detect_subprocess_line lexer sd)) = token_start lexer \<and>
   result_symbol (det_lexer (detect_subprocess_line lexer sd)) = result_symbol lexer"
  using peeked_detect_subprocess_line [of lexer sd]
  by (simp add: peeked_def mark_end_def)

lemma lookahead_mark_end [simp]: "lookahead (mark_end lx) = lookahead lx"
  by (simp add: lookahead_def mark_end_def)

lemma detect_none_at_nul:
  assumes "lookahead lexer = 0"
  shows "det_result (detect_subprocess_line lexer sd) = DETECT_NONE"
proof -
  have w: "skip_whitespace (mark_end lexer) = mark_end lexer"
    using assms by (subst skip_whitespace.simps) (simp add: is_whitespace_def)
  have r: "\<And>st. rest_of_line st (mark_end lexer) = (st, mark_end lexer)"
    using assms by (subst rest_of_line.simps) simp
  show ?thesis
    using assms
    by (simp add: detect_subprocess_line_def line_analysis_def w r detect_probes_def
          probe_slash_def probe_dot_def probe_tilde_def probe_dollar_def probe_bang_def
          probe_bracket_def probe_at_def detect_first_identifier_def is_identifier_start_def
          detect_comma_line_def initial_line_state_def wrap_result_def)
qed

lemma content_step_symbol:
  "content_step s d a c = Return (True, s', lx') \<Longrightarrow>
   result_symbol lx' \<in> {STRING_CONTENT, STRING_END}"
  by (cases c)
     (auto simp: content_step_def content_triple_quote_def Let_def split: if_splits)

lemma content_loop_symbol:
  "content_loop s d a c = Return (True, s', lx') \<Longrightarrow>
   result_symbol lx' \<in> {STRING_CONTENT, STRING_END}"
proof (induction s d a c rule: content_loop.induct)
  case (1 s d a c)
  show ?case
  proof (cases "lookahead (fst c) \<noteq> 0")
    case False
    with "1.prems" show ?thesis by (subst (asm) content_loop.simps) simp
  next
    case True
    show ?thesis
    proof (cases "content_step s d a c")
      case (Return r)
      with True "1.prems" have "content_step s d a c = Return (True, s', lx')"
        by (subst (asm) content_loop.simps) simp
      then show ?thesis by (rule content_step_symbol)
    next
      case (Next c')
      with True "1.prems" have "content_loop s d a c' = Return (True, s', lx')"
        by (subst (asm) content_loop.simps) simp
      with "1.IH" [OF True Next] show ?thesis by simp
    qed
  qed
qed

lemma content_loop_Next_nul:
  "content_loop s d a c = Next lx \<Longrightarrow> lookahead lx = 0"
proof (induction s d a c rule: content_loop.induct)
  case (1 s d a c)
  show ?case
  proof (cases "lookahead (fst c) \<noteq> 0")
    case False
    with "1.prems" show ?thesis by (subst (asm) content_loop.simps) auto
  next
    case True
    show ?thesis
    proof (cases "content_step s d a c")
      case (Return r)
      with True "1.prems" show ?thesis by (subst (asm) content_loop.simps) simp
    next
      case (Next c')
      with True "1.prems" have "content_loop s d a c' = Next lx"
        by (subst (asm) content_loop.simps) simp
      with "1.IH" [OF True Next] show ?thesis by simp
    qed
  qed
qed

lemma layout_emit_symbol:
  "layout_emit s valid st = Return (True, s', lx') \<Longrightarrow>
   result_symbol lx' \<in> {INDENT, DEDENT, NEWLINE}"
  by (cases st)
     (auto simp: layout_emit_def layout_indent_dedent_def Let_def then_flow_eq_Return
           split: if_splits)

lemma scan_front_symbol:
  assumes "scan_front s lexer valid = Return (True, s', lx')"
  shows "result_symbol lx' \<in> {ESCAPE_INTERPOLATION, STRING_CONTENT, STRING_END, INDENT, DEDENT,
                                NEWLINE}"
proof (cases "scan_escape s lexer valid")
  case (Return r)
  with assms have "scan_escape s lexer valid = Return (True, s', lx')"
    by (simp add: scan_front_def)
  then show ?thesis by (auto simp: scan_escape_def Let_def split: if_splits)
next
  case e: (Next a)
  show ?thesis
  proof (cases "scan_string_content s lexer valid a")
    case (Return r)
    with assms e have "scan_string_content s lexer valid a = Return (True, s', lx')"
      by (simp add: scan_front_def)
    then show ?thesis
      by (auto simp: scan_string_content_def split: if_splits dest: content_loop_symbol)
  next
    case c: (Next lx1)
    show ?thesis
    proof (cases "layout_loop valid (mark_end lx1, False, 0, - 1)")
      case (Return lx)
      with assms e c show ?thesis by (simp add: scan_front_def)
    next
      case (Next st)
      with assms e c have "layout_emit s valid st = Return (True, s', lx')"
        by (cases "layout_emit s valid st") (simp_all add: scan_front_def)
      from layout_emit_symbol [OF this] show ?thesis by auto
    qed
  qed
qed

text \<open>A lexer whose token starts at the current position keeps that through skips.\<close>

lemma token_start_skip:
  "token_start lx = position lx \<Longrightarrow> token_start (skip lx) = position (skip lx)"
  by (cases "remaining lx") (simp_all add: skip_def lexer_advance_def)

lemma token_start_skip_comment:
  "token_start lx = position lx \<Longrightarrow> token_start (skip_comment lx) = position (skip_comment lx)"
proof (induction lx rule: skip_comment.induct)
  case (1 lx)
  show ?case
  proof (cases "lookahead lx \<noteq> 0 \<and> lookahead lx \<noteq> c_newline")
    case True
    with 1 token_start_skip [of lx] show ?thesis by (subst (1 2) skip_comment.simps) simp
  next
    case False
    with 1 show ?thesis by (subst (1 2) skip_comment.simps) auto
  qed
qed

lemma layout_step_token_start:
  assumes "token_start lx = position lx"
  shows "case layout_step valid (lx, f, il, fc) of
           Abort l \<Rightarrow> True
         | Break st \<Rightarrow> token_start (fst st) = position (fst st)
         | Again st \<Rightarrow> token_start (fst st) = position (fst st)"
  using assms
  by (simp add: layout_step_def Let_def token_start_skip token_start_skip_comment)

lemma layout_loop_token_start:
  "layout_loop valid st = Next st' \<Longrightarrow> token_start (fst st) = position (fst st) \<Longrightarrow>
   token_start (fst st') = position (fst st')"
proof (induction valid st rule: layout_loop.induct)
  case (1 valid st)
  obtain lx f il fc where st: "st = (lx, f, il, fc)" by (cases st) auto
  show ?case
  proof (cases "layout_step valid st")
    case (Abort l)
    with "1.prems"(1) show ?thesis by (subst (asm) layout_loop.simps) simp
  next
    case (Break b)
    with "1.prems"(1) have "st' = b" by (subst (asm) layout_loop.simps) simp
    with Break st "1.prems"(2) layout_step_token_start [of lx valid f il fc]
    show ?thesis by simp
  next
    case (Again a)
    with "1.prems"(1) have l: "layout_loop valid a = Next st'"
      by (subst (asm) layout_loop.simps) simp
    from Again st "1.prems"(2) layout_step_token_start [of lx valid f il fc]
    have "token_start (fst a) = position (fst a)" by simp
    with "1.IH" [OF Again l] show ?thesis by simp
  qed
qed

lemma layout_loop_nul:
  assumes "lookahead lx = 0" and "layout_loop valid (lx, f, il, fc) = Next st'"
  shows "fst st' = lx"
  using assms by (subst (asm) layout_loop.simps) (auto simp: layout_step_def split: if_splits)

lemma scan_front_fresh:
  assumes "token_start lexer = position lexer" and "scan_front s lexer valid = Next (lx, fc)"
  shows "token_start lx = position lx \<or> lookahead lx = 0"
proof (cases "scan_escape s lexer valid")
  case (Return r)
  with assms(2) show ?thesis by (simp add: scan_front_def)
next
  case e: (Next a)
  show ?thesis
  proof (cases "scan_string_content s lexer valid a")
    case (Return r)
    with assms(2) e show ?thesis by (simp add: scan_front_def)
  next
    case c: (Next lx1)
    show ?thesis
    proof (cases "layout_loop valid (mark_end lx1, False, 0, - 1)")
      case (Return l)
      with assms(2) e c show ?thesis by (simp add: scan_front_def)
    next
      case l: (Next st)
      with assms(2) e c have lx: "lx = fst st"
        by (cases "layout_emit s valid st") (simp_all add: scan_front_def)
      from c consider "lx1 = lexer" | "lookahead lx1 = 0"
        by (auto simp: scan_string_content_def split: if_splits dest: content_loop_Next_nul)
      then show ?thesis
      proof cases
        case 1
        with assms(1) have "token_start (fst (mark_end lx1, False, 0 :: 32 word, - 1 :: int))
            = position (fst (mark_end lx1, False, 0 :: 32 word, - 1 :: int))"
          by (simp add: mark_end_def)
        from layout_loop_token_start [OF l this] lx show ?thesis by simp
      next
        case 2
        then have "lookahead (mark_end lx1) = 0" by simp
        from layout_loop_nul [OF this l] lx have "lx = mark_end lx1" by simp
        with 2 show ?thesis by simp
      qed
    qed
  qed
qed

text \<open>
  The part of C2 that holds for \<^verbatim>\<open>SUBPROCESS_START\<close>: on a lexer whose token starts at
  the scan position, an emitted \<^verbatim>\<open>SUBPROCESS_START\<close> starts and ends at the position at
  which the detector was entered, and leaves the scanner state unchanged.
\<close>

lemma subprocess_start_zero_width:
  assumes "token_start lexer = position lexer"
    and "scan s lexer valid = (True, s', lx')" and "result_symbol lx' = SUBPROCESS_START"
  shows "\<exists>lx fc. scan_front s lexer valid = Next (lx, fc) \<and> s' = s \<and>
           det_result (detect_subprocess_line lx new_delimiter) = DETECT_SUBPROCESS \<and>
           token_start lx' = position lx \<and> marked_end lx' = position lx"
proof (cases "scan_front s lexer valid")
  case (Return r)
  with assms(2) have "scan_front s lexer valid = Return (True, s', lx')" by (simp add: scan_def)
  from scan_front_symbol [OF this] assms(3) show ?thesis by simp
next
  case (Next p)
  obtain lx fc where p: "p = (lx, fc)" by (cases p) auto
  with Next assms(2) have d: "scan_dispatch s valid lx fc = (True, s', lx')"
    by (simp add: scan_def)
  have l: "scan_logical s valid lx \<noteq> Return (True, s', lx')"
    using scan_logical_symbol [of s valid lx s' lx'] assms(3) by auto
  have k: "scan_keyword s valid lx \<noteq> Return (True, s', lx')"
    using scan_keyword_symbol [of s valid lx s' lx'] assms(3) by auto
  have q: "\<And>lx1. scan_path_prefix s valid lx1 fc \<noteq> Return (True, s', lx')"
    using scan_path_prefix_symbol [of s valid _ fc s' lx'] assms(3) by auto
  have r: "\<And>lx1. scan_string_start s valid lx1 fc \<noteq> (True, s', lx')"
    using scan_string_start_symbol [of s valid _ fc s' lx'] assms(3) by auto
  from d l k q r have sp: "scan_subprocess s valid lx fc = Return (True, s', lx')"
    by (auto simp: scan_dispatch_def scan_operators_def scan_after_operators_def
        then_flow_eq_Return then_flow_eq_Next split: flow.splits)
  let ?det = "detect_subprocess_line lx new_delimiter"
  from sp assms(3) have res: "det_result ?det = DETECT_SUBPROCESS"
    and lx': "lx' = emit SUBPROCESS_START (det_lexer ?det)" and s': "s' = s"
    by (auto simp: scan_subprocess_def Let_def split: if_splits prod.splits)
  from res detect_none_at_nul [of lx new_delimiter] have "lookahead lx \<noteq> 0" by auto
  with scan_front_fresh [OF assms(1)] Next p have ts: "token_start lx = position lx" by auto
  from detector_keeps_mark [of lx new_delimiter] lx' ts
  have "token_start lx' = position lx \<and> marked_end lx' = position lx"
    by (simp add: emit_def marked_end_def)
  with Next p res s' show ?thesis by simp
qed

text \<open>
  C2, evaluated where the code departs from it. On \<^verbatim>\<open>if"x"\<close> with
  \<^verbatim>\<open>SUBPROCESS_START\<close> and \<^verbatim>\<open>STRING_START\<close> valid the detector returns \<^verbatim>\<open>NONE\<close> after
  advancing over the keyword; scan then recognises the string start from there and emits
  \<^verbatim>\<open>STRING_START\<close> from 0 to 3, a token that covers the keyword.
\<close>

theorem C2_detector_consumes:
  "det_result (detect_subprocess_line
      (mark_end (start_lexer (map ch ''if'' @ [c_dquote] @ map ch ''x'' @ [c_dquote]) 0))
      new_delimiter) = DETECT_NONE \<and>
   position (det_lexer (detect_subprocess_line
      (mark_end (start_lexer (map ch ''if'' @ [c_dquote] @ map ch ''x'' @ [c_dquote]) 0))
      new_delimiter)) = 2 \<and>
   scan create (start_lexer (map ch ''if'' @ [c_dquote] @ map ch ''x'' @ [c_dquote]) 0)
      (valid_of [SUBPROCESS_START, STRING_START])
     = (True, \<lparr>indents = [0], delimiters = [\<lparr>flags = 2\<rparr>], inside_f_string = False\<rparr>,
        \<lparr>remaining = map ch ''x'' @ [c_dquote], position = 3, token_start = 0,
         token_end = Some 3, result_symbol = STRING_START\<rparr>)"
  by (simp add: all_eval valid_of_def)


end
